theory Spec2Isabelle
  imports Complex_Main "HOL-Library.AList"
begin

section \<open>JavaScript numbers and built-ins used by the pipeline\<close>

text \<open>
  The aggregation scripts (\<^verbatim>\<open>postprocess-node.mjs\<close>, \<^verbatim>\<open>postprocess.ts\<close>) compute with
  JavaScript numbers, IEEE 754 binary64. Quantities, sums and counts are integers (exact in
  a double below \<open>2^53\<close>) and are modelled by \<open>int\<close> and \<open>nat\<close>. Any other finite number is
  modelled by the rational it denotes, \<open>Num x\<close>; the remaining values of \<open>jsnum\<close> are the
  three special values a division by zero produces.
\<close>

datatype jsnum = Num rat | PosInf | NegInf | NaN

text \<open>
  The result of an arithmetic operation is the nearest double, the one with the even
  significand on a tie. \<open>fl64\<close> rounds a rational to 53 significant bits in this way:
  \<open>binary_exponent x\<close> is the exponent \<open>e\<close> with \<open>2^e \<le> x < 2^(e+1)\<close>, read off the bit
  lengths of numerator and denominator, and the significand is \<open>x / 2^(e-52)\<close> rounded to
  an integer. The exponent range of binary64 is not modelled: quotients of two integers
  below \<open>2^53\<close> and their products by 100 are far inside it.
\<close>

definition round_half_even :: "rat \<Rightarrow> int" where
  "round_half_even y =
     (let f = \<lfloor>y\<rfloor>; r = y - of_int f
      in if r < 1 / 2 then f else if 1 / 2 < r then f + 1 else if even f then f else f + 1)"

function bit_length :: "int \<Rightarrow> nat" where
  "bit_length n = (if n \<le> 0 then 0 else Suc (bit_length (n div 2)))"
  by pat_completeness auto
termination
  by (relation "measure nat") auto

definition binary_exponent :: "rat \<Rightarrow> int" where
  "binary_exponent x =
     (let (p, q) = quotient_of x;
          e = int (bit_length p) - int (bit_length q)
      in if power_int 2 e \<le> x then e else e - 1)"

definition fl64 :: "rat \<Rightarrow> rat" where
  "fl64 x =
     (if x = 0 then 0
      else let e = binary_exponent \<bar>x\<bar>;
               m = round_half_even (\<bar>x\<bar> * power_int 2 (52 - e))
           in sgn x * of_int m * power_int 2 (e - 52))"

text \<open>\<^verbatim>\<open>a / b\<close> on two integer-valued numbers, as a double.\<close>

definition js_div64 :: "int \<Rightarrow> int \<Rightarrow> jsnum" where
  "js_div64 a b =
     (if b = 0 then (if a = 0 then NaN else if 0 < a then PosInf else NegInf)
      else Num (fl64 (of_int a / of_int b)))"

text \<open>
  \<^verbatim>\<open>a / b\<close> where the quotient is only passed to \<^verbatim>\<open>Math.round\<close> (the average number of
  pieces per set). The quotient is kept exact there: rounding it to a double first changes
  the result of \<^verbatim>\<open>Math.round\<close> only when the quotient lies within a relative distance of
  \<open>2^-52\<close> of a half-integer, which integer operands below \<open>2^50\<close> exclude.
\<close>

definition js_div :: "int \<Rightarrow> int \<Rightarrow> jsnum" where
  "js_div a b =
     (if b = 0 then (if a = 0 then NaN else if 0 < a then PosInf else NegInf)
      else Num (of_int a / of_int b))"

text \<open>\<^verbatim>\<open>x * 100\<close>, as a double.\<close>

fun js_times100 :: "jsnum \<Rightarrow> jsnum" where
  "js_times100 (Num x) = Num (fl64 (x * 100))"
| "js_times100 PosInf = PosInf"
| "js_times100 NegInf = NegInf"
| "js_times100 NaN = NaN"

text \<open>
  \<^verbatim>\<open>x.toFixed(d)\<close> picks the integer \<open>n\<close> with \<open>n / 10^d\<close> nearest to the exact value of the
  double \<open>x\<close>, the larger one on a tie, after taking the sign off. \<^verbatim>\<open>parseFloat\<close> reads the
  decimal back as the nearest double, and \<^verbatim>\<open>JSON.stringify\<close> writes that double as the
  same decimal (a decimal of at most 15 significant digits survives the round trip). The
  model keeps the decimal \<open>n / 10^d\<close>: it is the number found in the output file.
\<close>

definition round_dec :: "nat \<Rightarrow> rat \<Rightarrow> rat" where
  "round_dec d x =
     (if x < 0 then - (of_int \<lfloor>- x * 10 ^ d + 1 / 2\<rfloor> / 10 ^ d)
      else of_int \<lfloor>x * 10 ^ d + 1 / 2\<rfloor> / 10 ^ d)"

fun toFixed_parseFloat :: "nat \<Rightarrow> jsnum \<Rightarrow> jsnum" where
  "toFixed_parseFloat d (Num x) = Num (round_dec d x)"
| "toFixed_parseFloat d PosInf = PosInf"
| "toFixed_parseFloat d NegInf = NegInf"
| "toFixed_parseFloat d NaN = NaN"

text \<open>\<^verbatim>\<open>a >= b\<close>: false whenever an operand is \<^verbatim>\<open>NaN\<close>.\<close>

fun js_ge :: "jsnum \<Rightarrow> jsnum \<Rightarrow> bool" where
  "js_ge NaN _ = False"
| "js_ge _ NaN = False"
| "js_ge PosInf _ = True"
| "js_ge _ NegInf = True"
| "js_ge NegInf _ = False"
| "js_ge (Num a) PosInf = False"
| "js_ge (Num a) (Num b) = (b \<le> a)"

text \<open>\<^verbatim>\<open>Math.round(x)\<close>: the nearest integer, the larger one on a tie.\<close>

fun Math_round :: "jsnum \<Rightarrow> jsnum" where
  "Math_round (Num x) = Num (of_int \<lfloor>x + 1 / 2\<rfloor>)"
| "Math_round PosInf = PosInf"
| "Math_round NegInf = NegInf"
| "Math_round NaN = NaN"

text \<open>\<^verbatim>\<open>x || 0\<close> on a number: \<^verbatim>\<open>NaN\<close> and zero are falsy.\<close>

fun or_zero :: "jsnum \<Rightarrow> jsnum" where
  "or_zero NaN = Num 0"
| "or_zero x = x"

text \<open>
  \<^verbatim>\<open>parseInt(s)\<close> with no radix: leading white space and one sign are skipped, a
  \<^verbatim>\<open>0x\<close> prefix selects radix 16, and the longest run of digits is read; no digit at all
  gives \<^verbatim>\<open>NaN\<close>, here \<open>None\<close>.
\<close>

definition is_white :: "char \<Rightarrow> bool" where
  "is_white c = (c = CHR '' '' \<or> (9 \<le> (of_char c :: nat) \<and> (of_char c :: nat) \<le> 13))"

definition digit_val :: "nat \<Rightarrow> char \<Rightarrow> nat option" where
  "digit_val R c =
     (let n = (of_char c :: nat);
          v = (if 48 \<le> n \<and> n \<le> 57 then Some (n - 48)
               else if 97 \<le> n \<and> n \<le> 102 then Some (n - 87)
               else if 65 \<le> n \<and> n \<le> 70 then Some (n - 55)
               else None)
      in case v of None \<Rightarrow> None | Some k \<Rightarrow> (if k < R then Some k else None))"

fun digits_prefix :: "nat \<Rightarrow> string \<Rightarrow> nat list" where
  "digits_prefix R [] = []"
| "digits_prefix R (c # cs) =
     (case digit_val R c of None \<Rightarrow> [] | Some k \<Rightarrow> k # digits_prefix R cs)"

definition parseInt :: "string \<Rightarrow> int option" where
  "parseInt s =
     (let s1 = dropWhile is_white s;
          neg = (take 1 s1 = ''-'');
          s2 = (if take 1 s1 = ''+'' \<or> take 1 s1 = ''-'' then drop 1 s1 else s1);
          hex = (take 2 s2 = ''0x'' \<or> take 2 s2 = ''0X'');
          R = (if hex then 16 else 10);
          s3 = (if hex then drop 2 s2 else s2);
          Z = digits_prefix R s3
      in if Z = [] then None
         else Some ((if neg then - 1 else 1) * int (foldl (\<lambda>a k. a * R + k) 0 Z)))"

text \<open>\<^verbatim>\<open>parseInt(s) || 0\<close>.\<close>

definition parseInt_or_zero :: "string \<Rightarrow> int" where
  "parseInt_or_zero s = (case parseInt s of None \<Rightarrow> 0 | Some n \<Rightarrow> n)"

section \<open>Coverage thresholds\<close>

text \<open>
  The threshold helpers are generic in the item type: any object with \<^verbatim>\<open>name\<close>,
  \<^verbatim>\<open>percent\<close> and \<^verbatim>\<open>cumulative_percent\<close>. The record scheme plays the part of
  \<^verbatim>\<open>T extends { name; percent; cumulative_percent }\<close>.
\<close>

record CoverageItem =
  name :: string
  percent :: jsnum
  cumulative_percent :: jsnum

record CoverageThreshold =
  count :: nat
  items :: "CoverageItem list"

function findThresholdIndex_from :: "nat \<Rightarrow> 'a CoverageItem_scheme list \<Rightarrow> jsnum \<Rightarrow> nat" where
  "findThresholdIndex_from i xs threshold =
     (if i < length xs then
        (if js_ge (cumulative_percent (xs ! i)) threshold then i + 1
         else findThresholdIndex_from (i + 1) xs threshold)
      else length xs)"
  by pat_completeness auto
termination
  by (relation "measure (\<lambda>(i, xs, t). length xs - i)") auto

definition findThresholdIndex :: "'a CoverageItem_scheme list \<Rightarrow> jsnum \<Rightarrow> nat" where
  "findThresholdIndex xs threshold = findThresholdIndex_from 0 xs threshold"

definition threshold_item :: "'a CoverageItem_scheme \<Rightarrow> CoverageItem" where
  "threshold_item item =
     \<lparr>name = name item, percent = percent item, cumulative_percent = cumulative_percent item\<rparr>"

definition getThresholdItems :: "'a CoverageItem_scheme list \<Rightarrow> jsnum \<Rightarrow> CoverageThreshold" where
  "getThresholdItems xs threshold =
     (let c = findThresholdIndex xs threshold
      in \<lparr>count = c, items = map threshold_item (take (min c 10) xs)\<rparr>)"


section \<open>Input tables and reference maps\<close>

text \<open>
  A CSV row is an object whose fields are strings (the parser stores the empty string for
  a missing value). The field names carry a prefix for the table they belong to.
\<close>

record Color =
  c_id :: string
  c_name :: string
  c_rgb :: string
  c_is_trans :: string

record Part =
  p_part_num :: string
  p_name :: string
  p_part_cat_id :: string
  p_part_material :: string

record LegoSet =
  s_set_num :: string
  s_name :: string
  s_year :: string
  s_theme_id :: string
  s_num_parts :: string

record Inventory =
  i_id :: string
  i_version :: string
  i_set_num :: string

record InventoryPart =
  ip_inventory_id :: string
  ip_part_num :: string
  ip_color_id :: string
  ip_quantity :: string
  ip_is_spare :: string
  ip_img_url :: string

text \<open>
  The lookup maps are only read by key, so they are partial functions. A later row with
  the same key overwrites an earlier one, except in \<open>inventoryToSetMap\<close>, which keeps the
  first.
\<close>

definition colorMap :: "Color list \<Rightarrow> (string \<rightharpoonup> Color)" where
  "colorMap colors = fold (\<lambda>c m. m(c_id c \<mapsto> c)) colors Map.empty"

definition partMap :: "Part list \<Rightarrow> (string \<rightharpoonup> Part)" where
  "partMap parts = fold (\<lambda>p m. m(p_part_num p \<mapsto> p)) parts Map.empty"

definition setMap :: "LegoSet list \<Rightarrow> (string \<rightharpoonup> LegoSet)" where
  "setMap sets = fold (\<lambda>s m. m(s_set_num s \<mapsto> s)) sets Map.empty"

definition inventoryToSetMap :: "Inventory list \<Rightarrow> (string \<rightharpoonup> string)" where
  "inventoryToSetMap inventories =
     fold (\<lambda>inv m. if m (i_id inv) \<noteq> None then m else m(i_id inv \<mapsto> i_set_num inv))
       inventories Map.empty"

section \<open>Color stats and part frequency\<close>

text \<open>
  A JavaScript \<^verbatim>\<open>Map\<close> that is iterated is an association list in insertion order:
  \<open>AList.update\<close> replaces the value of a present key in place and appends a new key,
  as \<^verbatim>\<open>Map.prototype.set\<close> does. \<^verbatim>\<open>Array.prototype.sort\<close> is stable, as is \<open>sort_key\<close>;
  the comparator \<^verbatim>\<open>(a, b) => b.quantity - a.quantity\<close> sorts by descending quantity.
\<close>

record StatItem = CoverageItem +
  quantity :: int
  rank :: nat

record ColorStat = StatItem +
  color :: string

record PartFrequency = StatItem +
  part_num :: string
  image :: string

record ColorAgg =
  ca_name :: string
  ca_color :: string
  ca_quantity :: int

record PartAgg =
  pa_part_num :: string
  pa_quantity :: int
  pa_img_url :: string

text \<open>\<^verbatim>\<open>parseFloat(((q / total) * 100).toFixed(d))\<close>.\<close>

definition percent_of :: "nat \<Rightarrow> int \<Rightarrow> int \<Rightarrow> jsnum" where
  "percent_of d q tot = toFixed_parseFloat d (js_times100 (js_div64 q tot))"

definition colorAgg_step ::
  "(string \<rightharpoonup> Color) \<Rightarrow> InventoryPart \<Rightarrow> (string \<times> ColorAgg) list \<Rightarrow> (string \<times> ColorAgg) list" where
  "colorAgg_step cm ip agg =
     (let qty = parseInt_or_zero (ip_quantity ip)
      in case cm (ip_color_id ip) of
           None \<Rightarrow> agg
         | Some c \<Rightarrow>
             (let key = c_rgb c @ ''-'' @ c_name c
              in case map_of agg key of
                   Some existing \<Rightarrow>
                     AList.update key (existing\<lparr>ca_quantity := ca_quantity existing + qty\<rparr>) agg
                 | None \<Rightarrow>
                     AList.update key
                       \<lparr>ca_name = c_name c, ca_color = ''#'' @ c_rgb c, ca_quantity = qty\<rparr> agg))"

definition colorAgg :: "(string \<rightharpoonup> Color) \<Rightarrow> InventoryPart list \<Rightarrow> (string \<times> ColorAgg) list" where
  "colorAgg cm inventoryParts = fold (colorAgg_step cm) inventoryParts []"

definition totalPieces :: "(string \<rightharpoonup> Color) \<Rightarrow> InventoryPart list \<Rightarrow> int" where
  "totalPieces cm inventoryParts =
     foldl (\<lambda>acc c. acc + ca_quantity c) 0 (map snd (colorAgg cm inventoryParts))"

definition sortedColors :: "(string \<rightharpoonup> Color) \<Rightarrow> InventoryPart list \<Rightarrow> ColorAgg list" where
  "sortedColors cm inventoryParts =
     sort_key (\<lambda>c. - ca_quantity c) (map snd (colorAgg cm inventoryParts))"

text \<open>
  The \<^verbatim>\<open>map\<close> callback with its running sum: \<open>tot\<close> is the grand total, \<open>cum\<close> the
  value of \<^verbatim>\<open>colorCumulativeSum\<close> before the item, \<open>index\<close> the item's position.
\<close>

fun colorStats_from :: "int \<Rightarrow> int \<Rightarrow> nat \<Rightarrow> ColorAgg list \<Rightarrow> ColorStat list" where
  "colorStats_from tot cum index [] = []"
| "colorStats_from tot cum index (c # cs) =
     \<lparr>name = ca_name c,
      percent = percent_of 4 (ca_quantity c) tot,
      cumulative_percent = percent_of 4 (cum + ca_quantity c) tot,
      quantity = ca_quantity c,
      rank = index + 1,
      color = ca_color c\<rparr>
     # colorStats_from tot (cum + ca_quantity c) (index + 1) cs"

definition colorStats :: "(string \<rightharpoonup> Color) \<Rightarrow> InventoryPart list \<Rightarrow> ColorStat list" where
  "colorStats cm inventoryParts =
     colorStats_from (totalPieces cm inventoryParts) 0 0 (sortedColors cm inventoryParts)"

definition partAgg_step :: "InventoryPart \<Rightarrow> (string \<times> PartAgg) list \<Rightarrow> (string \<times> PartAgg) list" where
  "partAgg_step ip agg =
     (let qty = parseInt_or_zero (ip_quantity ip)
      in case map_of agg (ip_part_num ip) of
           Some existing \<Rightarrow>
             AList.update (ip_part_num ip)
               (existing\<lparr>pa_quantity := pa_quantity existing + qty,
                          pa_img_url := (if ip_img_url ip \<noteq> [] \<and> pa_img_url existing = []
                                         then ip_img_url ip else pa_img_url existing)\<rparr>) agg
         | None \<Rightarrow>
             AList.update (ip_part_num ip)
               \<lparr>pa_part_num = ip_part_num ip, pa_quantity = qty, pa_img_url = ip_img_url ip\<rparr> agg)"

definition partAgg :: "InventoryPart list \<Rightarrow> (string \<times> PartAgg) list" where
  "partAgg inventoryParts = fold partAgg_step inventoryParts []"

definition sortedParts :: "InventoryPart list \<Rightarrow> PartAgg list" where
  "sortedParts inventoryParts = sort_key (\<lambda>p. - pa_quantity p) (map snd (partAgg inventoryParts))"

definition totalPartsQuantity :: "InventoryPart list \<Rightarrow> int" where
  "totalPartsQuantity inventoryParts =
     foldl (\<lambda>acc p. acc + pa_quantity p) 0 (sortedParts inventoryParts)"

text \<open>\<^verbatim>\<open>part?.name || "Unknown"\<close>: a missing part and an empty name both give the default.\<close>

definition name_or_Unknown :: "(string \<rightharpoonup> Part) \<Rightarrow> string \<Rightarrow> string" where
  "name_or_Unknown pm k =
     (case pm k of None \<Rightarrow> ''Unknown''
      | Some part \<Rightarrow> (if p_name part = [] then ''Unknown'' else p_name part))"

fun partFrequency_from ::
  "(string \<rightharpoonup> Part) \<Rightarrow> int \<Rightarrow> int \<Rightarrow> nat \<Rightarrow> PartAgg list \<Rightarrow> PartFrequency list" where
  "partFrequency_from pm tot cum index [] = []"
| "partFrequency_from pm tot cum index (p # ps) =
     \<lparr>name = name_or_Unknown pm (pa_part_num p),
      percent = percent_of 4 (pa_quantity p) tot,
      cumulative_percent = percent_of 4 (cum + pa_quantity p) tot,
      quantity = pa_quantity p,
      rank = index + 1,
      part_num = pa_part_num p,
      image = pa_img_url p\<rparr>
     # partFrequency_from pm tot (cum + pa_quantity p) (index + 1) ps"

definition partFrequency :: "(string \<rightharpoonup> Part) \<Rightarrow> InventoryPart list \<Rightarrow> PartFrequency list" where
  "partFrequency pm inventoryParts =
     partFrequency_from pm (totalPartsQuantity inventoryParts) 0 0 (sortedParts inventoryParts)"

text \<open>
  For stating properties: the parsed quantity of a row, and the sum of the parsed
  quantities of the rows with a given part number.
\<close>

definition row_quantity :: "InventoryPart \<Rightarrow> int" where
  "row_quantity ip = parseInt_or_zero (ip_quantity ip)"

definition part_quantity :: "string \<Rightarrow> InventoryPart list \<Rightarrow> int" where
  "part_quantity k ips = sum_list (map row_quantity (filter (\<lambda>ip. ip_part_num ip = k) ips))"

text \<open>
  For stating properties of the percentages: the sum \<^verbatim>\<open>sum(item.percent)\<close> of the
  percentages of the output, taken exactly over the decimals (with the special values as
  JavaScript adds them), the test that a number is finite and within a tolerance of a
  target, and the double \<^verbatim>\<open>(q / total) * 100\<close> that \<^verbatim>\<open>toFixed\<close> is applied to when the total
  is not zero.
\<close>

fun js_add :: "jsnum \<Rightarrow> jsnum \<Rightarrow> jsnum" where
  "js_add (Num a) (Num b) = Num (a + b)"
| "js_add NaN _ = NaN"
| "js_add _ NaN = NaN"
| "js_add PosInf NegInf = NaN"
| "js_add NegInf PosInf = NaN"
| "js_add PosInf _ = PosInf"
| "js_add _ PosInf = PosInf"
| "js_add NegInf _ = NegInf"
| "js_add _ NegInf = NegInf"

definition percent_sum :: "'a CoverageItem_scheme list \<Rightarrow> jsnum" where
  "percent_sum xs = foldl (\<lambda>acc x. js_add acc (percent x)) (Num 0) xs"

definition within_tolerance :: "rat \<Rightarrow> jsnum \<Rightarrow> rat \<Rightarrow> bool" where
  "within_tolerance eps x target = (case x of Num v \<Rightarrow> \<bar>v - target\<bar> \<le> eps | _ \<Rightarrow> False)"

definition double_percent :: "int \<Rightarrow> int \<Rightarrow> rat" where
  "double_percent q tot = fl64 (fl64 (of_int q / of_int tot) * 100)"

section \<open>Year trends\<close>

text \<open>
  Every year-scoped loop resolves a row to its set in the same three steps, skipping the
  row when a step fails: \<^verbatim>\<open>inventoryToSetMap.get(ip.inventory_id)\<close> (an empty set number
  is falsy as well), \<^verbatim>\<open>setMap.get(setNum)\<close>, and \<^verbatim>\<open>parseInt(set.year)\<close> with
  \<^verbatim>\<open>isNaN(year)\<close>. \<open>resolve_year\<close> is these steps; each loop adds its own test on the year.
\<close>

definition resolve_year ::
  "(string \<rightharpoonup> string) \<Rightarrow> (string \<rightharpoonup> LegoSet) \<Rightarrow> InventoryPart \<Rightarrow> (string \<times> int) option" where
  "resolve_year i2s sm ip =
     (case i2s (ip_inventory_id ip) of
        None \<Rightarrow> None
      | Some setNum \<Rightarrow>
          (if setNum = [] then None
           else case sm setNum of
                  None \<Rightarrow> None
                | Some st \<Rightarrow>
                    (case parseInt (s_year st) of
                       None \<Rightarrow> None
                     | Some yr \<Rightarrow> Some (setNum, yr))))"

datatype DataSource = inventory | sets_only

record YearTrend =
  year :: int
  total_pieces :: int
  total_sets :: nat
  avg_pieces_per_set :: jsnum
  unique_colors :: "nat option"
  unique_parts :: "nat option"
  top_color :: "string option"
  top_color_hex :: "string option"
  top_part :: "string option"
  top_part_name :: "string option"
  data_source :: DataSource

text \<open>
  The per-year accumulator: \<^verbatim>\<open>{ pieces, sets: Set, colors: Map, parts: Map }\<close>. A
  \<^verbatim>\<open>Set\<close> is a duplicate-free list in insertion order, its \<^verbatim>\<open>size\<close> the length.
\<close>

record YearData =
  yd_pieces :: int
  yd_sets :: "string list"
  yd_colors :: "(string \<times> int) list"
  yd_parts :: "(string \<times> int) list"

definition set_add :: "'a \<Rightarrow> 'a list \<Rightarrow> 'a list" where
  "set_add x xs = (if x \<in> set xs then xs else xs @ [x])"

text \<open>\<^verbatim>\<open>m.get(k) || 0\<close>.\<close>

definition get_or_zero :: "(string \<times> int) list \<Rightarrow> string \<Rightarrow> int" where
  "get_or_zero m k = (case map_of m k of None \<Rightarrow> 0 | Some v \<Rightarrow> v)"

definition yearAgg_step ::
  "(string \<rightharpoonup> string) \<Rightarrow> (string \<rightharpoonup> LegoSet) \<Rightarrow> (string \<rightharpoonup> Color) \<Rightarrow> InventoryPart
     \<Rightarrow> (int \<times> YearData) list \<Rightarrow> (int \<times> YearData) list" where
  "yearAgg_step i2s sm cm ip agg =
     (let qty = parseInt_or_zero (ip_quantity ip)
      in case resolve_year i2s sm ip of
           None \<Rightarrow> agg
         | Some (setNum, yr) \<Rightarrow>
             (if yr < 1949 then agg
              else
                (let yearData = (case map_of agg yr of
                                   Some yd \<Rightarrow> yd
                                 | None \<Rightarrow> \<lparr>yd_pieces = 0, yd_sets = [], yd_colors = [], yd_parts = []\<rparr>);
                     yd1 = yearData\<lparr>yd_pieces := yd_pieces yearData + qty,
                                    yd_sets := set_add setNum (yd_sets yearData)\<rparr>;
                     yd2 = (case cm (ip_color_id ip) of
                              None \<Rightarrow> yd1
                            | Some c \<Rightarrow>
                                yd1\<lparr>yd_colors :=
                                  AList.update (c_id c) (get_or_zero (yd_colors yd1) (c_id c) + qty)
                                    (yd_colors yd1)\<rparr>);
                     yd3 = yd2\<lparr>yd_parts :=
                             AList.update (ip_part_num ip)
                               (get_or_zero (yd_parts yd2) (ip_part_num ip) + qty) (yd_parts yd2)\<rparr>
                 in AList.update yr yd3 agg)))"

definition yearAgg ::
  "(string \<rightharpoonup> string) \<Rightarrow> (string \<rightharpoonup> LegoSet) \<Rightarrow> (string \<rightharpoonup> Color) \<Rightarrow> InventoryPart list
     \<Rightarrow> (int \<times> YearData) list" where
  "yearAgg i2s sm cm inventoryParts = fold (yearAgg_step i2s sm cm) inventoryParts []"

text \<open>
  The arg-max loops: the running best starts at \<^verbatim>\<open>("", 0)\<close> and is replaced by a strictly
  larger quantity only.
\<close>

definition top_entry :: "(string \<times> int) list \<Rightarrow> string \<times> int" where
  "top_entry m =
     fold (\<lambda>(k, qty) (topId, topQty). if topQty < qty then (k, qty) else (topId, topQty)) m ([], 0)"

definition inventoryYearTrend ::
  "(string \<rightharpoonup> Color) \<Rightarrow> (string \<rightharpoonup> Part) \<Rightarrow> int \<times> YearData \<Rightarrow> YearTrend" where
  "inventoryYearTrend cm pm entry =
     (let yr = fst entry; yd = snd entry;
          topColorId = fst (top_entry (yd_colors yd));
          topColor = cm topColorId;
          topPartNum = fst (top_entry (yd_parts yd))
      in \<lparr>year = yr,
          total_pieces = yd_pieces yd,
          total_sets = length (yd_sets yd),
          avg_pieces_per_set =
            or_zero (Math_round (js_div (yd_pieces yd) (int (length (yd_sets yd))))),
          unique_colors = Some (length (yd_colors yd)),
          unique_parts = Some (length (yd_parts yd)),
          top_color = Some (case topColor of
                              None \<Rightarrow> ''Unknown''
                            | Some c \<Rightarrow> (if c_name c = [] then ''Unknown'' else c_name c)),
          top_color_hex = Some (case topColor of
                                  None \<Rightarrow> ''#000000''
                                | Some c \<Rightarrow> ''#'' @ c_rgb c),
          top_part = Some topPartNum,
          top_part_name = Some (name_or_Unknown pm topPartNum),
          data_source = inventory\<rparr>)"

definition inventoryYearTrends ::
  "(string \<rightharpoonup> string) \<Rightarrow> (string \<rightharpoonup> LegoSet) \<Rightarrow> (string \<rightharpoonup> Color) \<Rightarrow> (string \<rightharpoonup> Part)
     \<Rightarrow> InventoryPart list \<Rightarrow> YearTrend list" where
  "inventoryYearTrends i2s sm cm pm inventoryParts =
     map (inventoryYearTrend cm pm) (yearAgg i2s sm cm inventoryParts)"

record SetsOnlyYearData =
  so_sets :: "string list"
  so_totalPieces :: int

definition setsOnlyYearAgg_step ::
  "int set \<Rightarrow> LegoSet \<Rightarrow> (int \<times> SetsOnlyYearData) list \<Rightarrow> (int \<times> SetsOnlyYearData) list" where
  "setsOnlyYearAgg_step inventoryYears st agg =
     (case parseInt (s_year st) of
        None \<Rightarrow> agg
      | Some yr \<Rightarrow>
          (if yr < 1949 then agg
           else if yr \<in> inventoryYears then agg
           else
             (let yearData = (case map_of agg yr of
                                Some yd \<Rightarrow> yd
                              | None \<Rightarrow> \<lparr>so_sets = [], so_totalPieces = 0\<rparr>)
              in AList.update yr
                   (yearData\<lparr>so_sets := set_add (s_set_num st) (so_sets yearData),
                              so_totalPieces :=
                                so_totalPieces yearData + parseInt_or_zero (s_num_parts st)\<rparr>)
                   agg)))"

definition setsOnlyYearAgg :: "int set \<Rightarrow> LegoSet list \<Rightarrow> (int \<times> SetsOnlyYearData) list" where
  "setsOnlyYearAgg inventoryYears sets = fold (setsOnlyYearAgg_step inventoryYears) sets []"

definition setsOnlyYearTrend :: "int \<times> SetsOnlyYearData \<Rightarrow> YearTrend" where
  "setsOnlyYearTrend entry =
     (let yr = fst entry; yd = snd entry
      in \<lparr>year = yr,
          total_pieces = so_totalPieces yd,
          total_sets = length (so_sets yd),
          avg_pieces_per_set =
            or_zero (Math_round (js_div (so_totalPieces yd) (int (length (so_sets yd))))),
          unique_colors = None,
          unique_parts = None,
          top_color = None,
          top_color_hex = None,
          top_part = None,
          top_part_name = None,
          data_source = sets_only\<rparr>)"

definition setsOnlyYearTrends ::
  "(string \<rightharpoonup> string) \<Rightarrow> (string \<rightharpoonup> LegoSet) \<Rightarrow> (string \<rightharpoonup> Color) \<Rightarrow> (string \<rightharpoonup> Part)
     \<Rightarrow> LegoSet list \<Rightarrow> InventoryPart list \<Rightarrow> YearTrend list" where
  "setsOnlyYearTrends i2s sm cm pm sets inventoryParts =
     (let inventoryYears = set (map year (inventoryYearTrends i2s sm cm pm inventoryParts))
      in map setsOnlyYearTrend (setsOnlyYearAgg inventoryYears sets))"

text \<open>The combined output, most recent year first.\<close>

definition yearTrends ::
  "(string \<rightharpoonup> string) \<Rightarrow> (string \<rightharpoonup> LegoSet) \<Rightarrow> (string \<rightharpoonup> Color) \<Rightarrow> (string \<rightharpoonup> Part)
     \<Rightarrow> LegoSet list \<Rightarrow> InventoryPart list \<Rightarrow> YearTrend list" where
  "yearTrends i2s sm cm pm sets inventoryParts =
     sort_key (\<lambda>t. - year t)
       (inventoryYearTrends i2s sm cm pm inventoryParts
        @ setsOnlyYearTrends i2s sm cm pm sets inventoryParts)"

text \<open>
  For stating properties: the years of the two sources. A year of the inventory join is
  the year a row resolves to; a year of the sets table is the parsed year of a set row.
\<close>

definition inventory_source_years ::
  "(string \<rightharpoonup> string) \<Rightarrow> (string \<rightharpoonup> LegoSet) \<Rightarrow> InventoryPart list \<Rightarrow> int set" where
  "inventory_source_years i2s sm inventoryParts =
     {yr. \<exists>ip \<in> set inventoryParts. \<exists>setNum. resolve_year i2s sm ip = Some (setNum, yr)}"

definition sets_source_years :: "LegoSet list \<Rightarrow> int set" where
  "sets_source_years sets = {yr. \<exists>st \<in> set sets. parseInt (s_year st) = Some yr}"

section \<open>Coverage data, curve sampling and period coverage\<close>


record CurvePoint =
  cp_rank :: nat
  cp_name :: string
  cp_quantity :: int
  cp_cumulative_percent :: jsnum



text \<open>
  \<^verbatim>\<open>sampleCurvePoints\<close> picks its ranks with floating-point logarithms and powers. The value
  of \<^verbatim>\<open>Math.round(Math.pow(10, (i / maxPoints) * Math.log10(data.length)))\<close> is taken as a
  parameter \<open>lr maxPoints (length data) i\<close>; everything after it is integer arithmetic. The
  function indexes \<open>data\<close> only when \<open>length data > maxPoints\<close>, so \<open>data\<close> is not empty
  there and every index is in range.
\<close>

definition sample_step ::
  "(nat \<Rightarrow> nat \<Rightarrow> nat \<Rightarrow> int) \<Rightarrow> CurvePoint list \<Rightarrow> nat \<Rightarrow> nat
     \<Rightarrow> CurvePoint list \<times> nat set \<Rightarrow> CurvePoint list \<times> nat set" where
  "sample_step lr data maxPoints i st =
     (let sampled = fst st; seenRanks = snd st;
          rnk = max 1 (lr maxPoints (length data) i);
          idx = nat (min (rnk - 1) (int (length data) - 1))
      in if cp_rank (data ! idx) \<notin> seenRanks
         then (sampled @ [data ! idx], insert (cp_rank (data ! idx)) seenRanks)
         else (sampled, seenRanks))"

definition sampleCurvePoints ::
  "(nat \<Rightarrow> nat \<Rightarrow> nat \<Rightarrow> int) \<Rightarrow> CurvePoint list \<Rightarrow> nat \<Rightarrow> CurvePoint list" where
  "sampleCurvePoints lr data maxPoints =
     (if length data \<le> maxPoints then data
      else
        (let st = fold (sample_step lr data maxPoints) [0..<maxPoints] ([], {});
             sampled = fst st; seenRanks = snd st;
             sampled1 = (if cp_rank (data ! 0) \<notin> seenRanks then data ! 0 # sampled else sampled);
             sampled2 = (if cp_rank (data ! (length data - 1)) \<notin> seenRanks
                         then sampled1 @ [data ! (length data - 1)] else sampled1)
         in sort_key cp_rank sampled2))"

text \<open>
  \<^verbatim>\<open>computePeriodCoverage(minYear)\<close> scans the rows again, keeping those whose set year is at
  least \<open>minYear\<close>. Its percentages are guarded: \<^verbatim>\<open>total > 0 ? parseFloat(...) : 0\<close>.
\<close>

record PeriodPartAgg =
  ppa_part_num :: string
  ppa_quantity :: int

definition guarded_percent :: "int \<Rightarrow> int \<Rightarrow> jsnum" where
  "guarded_percent q tot = (if 0 < tot then percent_of 4 q tot else Num 0)"

definition periodPartAgg_step ::
  "(string \<rightharpoonup> string) \<Rightarrow> (string \<rightharpoonup> LegoSet) \<Rightarrow> int \<Rightarrow> InventoryPart
     \<Rightarrow> (string \<times> PeriodPartAgg) list \<Rightarrow> (string \<times> PeriodPartAgg) list" where
  "periodPartAgg_step i2s sm minYear ip agg =
     (let qty = parseInt_or_zero (ip_quantity ip)
      in case resolve_year i2s sm ip of
           None \<Rightarrow> agg
         | Some (setNum, yr) \<Rightarrow>
             (if yr < minYear then agg
              else case map_of agg (ip_part_num ip) of
                     Some existingPart \<Rightarrow>
                       AList.update (ip_part_num ip)
                         (existingPart\<lparr>ppa_quantity := ppa_quantity existingPart + qty\<rparr>) agg
                   | None \<Rightarrow>
                       AList.update (ip_part_num ip)
                         \<lparr>ppa_part_num = ip_part_num ip, ppa_quantity = qty\<rparr> agg))"

definition periodColorAgg_step ::
  "(string \<rightharpoonup> string) \<Rightarrow> (string \<rightharpoonup> LegoSet) \<Rightarrow> (string \<rightharpoonup> Color) \<Rightarrow> int \<Rightarrow> InventoryPart
     \<Rightarrow> (string \<times> ColorAgg) list \<Rightarrow> (string \<times> ColorAgg) list" where
  "periodColorAgg_step i2s sm cm minYear ip agg =
     (let qty = parseInt_or_zero (ip_quantity ip)
      in case resolve_year i2s sm ip of
           None \<Rightarrow> agg
         | Some (setNum, yr) \<Rightarrow>
             (if yr < minYear then agg
              else case cm (ip_color_id ip) of
                     None \<Rightarrow> agg
                   | Some c \<Rightarrow>
                       (let colorKey = c_rgb c @ ''-'' @ c_name c
                        in case map_of agg colorKey of
                             Some existingColor \<Rightarrow>
                               AList.update colorKey
                                 (existingColor\<lparr>ca_quantity := ca_quantity existingColor + qty\<rparr>)
                                 agg
                           | None \<Rightarrow>
                               AList.update colorKey
                                 \<lparr>ca_name = c_name c, ca_color = ''#'' @ c_rgb c, ca_quantity = qty\<rparr>
                                 agg)))"

definition periodParts ::
  "(string \<rightharpoonup> string) \<Rightarrow> (string \<rightharpoonup> LegoSet) \<Rightarrow> int \<Rightarrow> InventoryPart list \<Rightarrow> PeriodPartAgg list" where
  "periodParts i2s sm minYear inventoryParts =
     sort_key (\<lambda>p. - ppa_quantity p)
       (map snd (fold (periodPartAgg_step i2s sm minYear) inventoryParts []))"

definition periodPartsTotal ::
  "(string \<rightharpoonup> string) \<Rightarrow> (string \<rightharpoonup> LegoSet) \<Rightarrow> int \<Rightarrow> InventoryPart list \<Rightarrow> int" where
  "periodPartsTotal i2s sm minYear inventoryParts =
     foldl (\<lambda>acc p. acc + ppa_quantity p) 0 (periodParts i2s sm minYear inventoryParts)"

fun periodPartFrequency_from ::
  "(string \<rightharpoonup> Part) \<Rightarrow> int \<Rightarrow> int \<Rightarrow> nat \<Rightarrow> PeriodPartAgg list \<Rightarrow> StatItem list" where
  "periodPartFrequency_from pm tot cum index [] = []"
| "periodPartFrequency_from pm tot cum index (p # ps) =
     \<lparr>name = name_or_Unknown pm (ppa_part_num p),
      percent = guarded_percent (ppa_quantity p) tot,
      cumulative_percent = guarded_percent (cum + ppa_quantity p) tot,
      quantity = ppa_quantity p,
      rank = index + 1\<rparr>
     # periodPartFrequency_from pm tot (cum + ppa_quantity p) (index + 1) ps"

definition periodPartFrequency ::
  "(string \<rightharpoonup> string) \<Rightarrow> (string \<rightharpoonup> LegoSet) \<Rightarrow> (string \<rightharpoonup> Part) \<Rightarrow> int
     \<Rightarrow> InventoryPart list \<Rightarrow> StatItem list" where
  "periodPartFrequency i2s sm pm minYear inventoryParts =
     periodPartFrequency_from pm (periodPartsTotal i2s sm minYear inventoryParts) 0 0
       (periodParts i2s sm minYear inventoryParts)"

definition periodColors ::
  "(string \<rightharpoonup> string) \<Rightarrow> (string \<rightharpoonup> LegoSet) \<Rightarrow> (string \<rightharpoonup> Color) \<Rightarrow> int
     \<Rightarrow> InventoryPart list \<Rightarrow> ColorAgg list" where
  "periodColors i2s sm cm minYear inventoryParts =
     sort_key (\<lambda>c. - ca_quantity c)
       (map snd (fold (periodColorAgg_step i2s sm cm minYear) inventoryParts []))"

definition periodColorsTotal ::
  "(string \<rightharpoonup> string) \<Rightarrow> (string \<rightharpoonup> LegoSet) \<Rightarrow> (string \<rightharpoonup> Color) \<Rightarrow> int
     \<Rightarrow> InventoryPart list \<Rightarrow> int" where
  "periodColorsTotal i2s sm cm minYear inventoryParts =
     foldl (\<lambda>acc c. acc + ca_quantity c) 0 (periodColors i2s sm cm minYear inventoryParts)"

fun periodColorStats_from :: "int \<Rightarrow> int \<Rightarrow> nat \<Rightarrow> ColorAgg list \<Rightarrow> StatItem list" where
  "periodColorStats_from tot cum index [] = []"
| "periodColorStats_from tot cum index (c # cs) =
     \<lparr>name = ca_name c,
      percent = guarded_percent (ca_quantity c) tot,
      cumulative_percent = guarded_percent (cum + ca_quantity c) tot,
      quantity = ca_quantity c,
      rank = index + 1\<rparr>
     # periodColorStats_from tot (cum + ca_quantity c) (index + 1) cs"

definition periodColorStats ::
  "(string \<rightharpoonup> string) \<Rightarrow> (string \<rightharpoonup> LegoSet) \<Rightarrow> (string \<rightharpoonup> Color) \<Rightarrow> int
     \<Rightarrow> InventoryPart list \<Rightarrow> StatItem list" where
  "periodColorStats i2s sm cm minYear inventoryParts =
     periodColorStats_from (periodColorsTotal i2s sm cm minYear inventoryParts) 0 0
       (periodColors i2s sm cm minYear inventoryParts)"



section \<open>Decade colors\<close>

record Decade =
  d_decade :: string
  d_startYear :: int
  d_endYear :: int

definition decades :: "Decade list" where
  "decades =
     [\<lparr>d_decade = ''1950s'', d_startYear = 1950, d_endYear = 1959\<rparr>,
      \<lparr>d_decade = ''1960s'', d_startYear = 1960, d_endYear = 1969\<rparr>,
      \<lparr>d_decade = ''1970s'', d_startYear = 1970, d_endYear = 1979\<rparr>,
      \<lparr>d_decade = ''1980s'', d_startYear = 1980, d_endYear = 1989\<rparr>,
      \<lparr>d_decade = ''1990s'', d_startYear = 1990, d_endYear = 1999\<rparr>,
      \<lparr>d_decade = ''2000s'', d_startYear = 2000, d_endYear = 2009\<rparr>,
      \<lparr>d_decade = ''2010s'', d_startYear = 2010, d_endYear = 2019\<rparr>,
      \<lparr>d_decade = ''2020s'', d_startYear = 2020, d_endYear = 2029\<rparr>]"

record DecadeColor =
  dc_name :: string
  dc_color :: string
  dc_percent :: jsnum

record DecadeColors =
  dcs_decade :: string
  dcs_colors :: "DecadeColor list"

text \<open>
  \<^verbatim>\<open>decadeColorAgg\<close> maps every decade label to a color map, empty at first. The lookup
  \<^verbatim>\<open>decadeColorAgg.get(decadeInfo.decade)\<close> is of a label that was set at the start, so it
  always finds the map; the model returns the aggregate unchanged in the other case, which
  does not arise.
\<close>

definition decadeColorAgg_step ::
  "(string \<rightharpoonup> string) \<Rightarrow> (string \<rightharpoonup> LegoSet) \<Rightarrow> (string \<rightharpoonup> Color) \<Rightarrow> InventoryPart
     \<Rightarrow> (string \<times> (string \<times> ColorAgg) list) list \<Rightarrow> (string \<times> (string \<times> ColorAgg) list) list" where
  "decadeColorAgg_step i2s sm cm ip agg =
     (let qty = parseInt_or_zero (ip_quantity ip)
      in case resolve_year i2s sm ip of
           None \<Rightarrow> agg
         | Some (setNum, yr) \<Rightarrow>
             (case find (\<lambda>d. d_startYear d \<le> yr \<and> yr \<le> d_endYear d) decades of
                None \<Rightarrow> agg
              | Some decadeInfo \<Rightarrow>
                  (case cm (ip_color_id ip) of
                     None \<Rightarrow> agg
                   | Some c \<Rightarrow>
                       (case map_of agg (d_decade decadeInfo) of
                          None \<Rightarrow> agg
                        | Some decadeColors \<Rightarrow>
                            (let key = c_rgb c @ ''-'' @ c_name c
                             in AList.update (d_decade decadeInfo)
                                  (case map_of decadeColors key of
                                     Some existing \<Rightarrow>
                                       AList.update key
                                         (existing\<lparr>ca_quantity := ca_quantity existing + qty\<rparr>)
                                         decadeColors
                                   | None \<Rightarrow>
                                       AList.update key
                                         \<lparr>ca_name = c_name c, ca_color = ''#'' @ c_rgb c,
                                          ca_quantity = qty\<rparr>
                                         decadeColors)
                                  agg)))))"

definition decadeColorAgg ::
  "(string \<rightharpoonup> string) \<Rightarrow> (string \<rightharpoonup> LegoSet) \<Rightarrow> (string \<rightharpoonup> Color) \<Rightarrow> InventoryPart list
     \<Rightarrow> (string \<times> (string \<times> ColorAgg) list) list" where
  "decadeColorAgg i2s sm cm inventoryParts =
     fold (decadeColorAgg_step i2s sm cm) inventoryParts (map (\<lambda>d. (d_decade d, [])) decades)"

definition decadeColors_entry ::
  "(string \<times> (string \<times> ColorAgg) list) list \<Rightarrow> Decade \<Rightarrow> DecadeColors" where
  "decadeColors_entry agg d =
     (let colorData = (case map_of agg (d_decade d) of Some m \<Rightarrow> m | None \<Rightarrow> []);
          colorsList = map snd colorData;
          tot = foldl (\<lambda>acc c. acc + ca_quantity c) 0 colorsList
      in if tot = 0 then \<lparr>dcs_decade = d_decade d, dcs_colors = []\<rparr>
         else
           \<lparr>dcs_decade = d_decade d,
            dcs_colors =
              map (\<lambda>c. \<lparr>dc_name = ca_name c, dc_color = ca_color c,
                         dc_percent = percent_of 2 (ca_quantity c) tot\<rparr>)
                (take 10 (sort_key (\<lambda>c. - ca_quantity c) colorsList))\<rparr>)"

definition decadeColors ::
  "(string \<rightharpoonup> string) \<Rightarrow> (string \<rightharpoonup> LegoSet) \<Rightarrow> (string \<rightharpoonup> Color) \<Rightarrow> InventoryPart list
     \<Rightarrow> DecadeColors list" where
  "decadeColors i2s sm cm inventoryParts =
     filter (\<lambda>e. dcs_colors e \<noteq> [])
       (map (decadeColors_entry (decadeColorAgg i2s sm cm inventoryParts)) decades)"

text \<open>
  For stating properties: the rows whose set year lies in a decade, the color keys among
  rows (the colors that resolve), and the sum of an emitted decade's percents.
\<close>

definition decade_rows ::
  "(string \<rightharpoonup> string) \<Rightarrow> (string \<rightharpoonup> LegoSet) \<Rightarrow> Decade \<Rightarrow> InventoryPart list \<Rightarrow> InventoryPart list" where
  "decade_rows i2s sm d inventoryParts =
     filter (\<lambda>ip. case resolve_year i2s sm ip of
                     None \<Rightarrow> False
                   | Some (setNum, yr) \<Rightarrow> d_startYear d \<le> yr \<and> yr \<le> d_endYear d)
       inventoryParts"

definition color_keys :: "(string \<rightharpoonup> Color) \<Rightarrow> InventoryPart list \<Rightarrow> string set" where
  "color_keys cm inventoryParts =
     {c_rgb c @ ''-'' @ c_name c | c ip. ip \<in> set inventoryParts \<and> cm (ip_color_id ip) = Some c}"

definition dc_percent_sum :: "DecadeColors \<Rightarrow> jsnum" where
  "dc_percent_sum e = foldl (\<lambda>acc c. js_add acc (dc_percent c)) (Num 0) (dcs_colors e)"

text \<open>
  For stating properties of the decade colors: the total of a decade is the grand total of
  the color aggregate of its rows, and its expected entry lists the first 10 colors of that
  aggregate; \<open>decade_label\<close> is the label of the decade a row is counted in.
\<close>

definition decade_total ::
  "(string \<rightharpoonup> string) \<Rightarrow> (string \<rightharpoonup> LegoSet) \<Rightarrow> (string \<rightharpoonup> Color) \<Rightarrow> InventoryPart list \<Rightarrow> Decade \<Rightarrow> int" where
  "decade_total i2s sm cm inventoryParts d = totalPieces cm (decade_rows i2s sm d inventoryParts)"

definition decade_entry ::
  "(string \<rightharpoonup> string) \<Rightarrow> (string \<rightharpoonup> LegoSet) \<Rightarrow> (string \<rightharpoonup> Color) \<Rightarrow> InventoryPart list \<Rightarrow> Decade
     \<Rightarrow> DecadeColors" where
  "decade_entry i2s sm cm inventoryParts d =
     \<lparr>dcs_decade = d_decade d,
      dcs_colors =
        map (\<lambda>c. \<lparr>dc_name = ca_name c, dc_color = ca_color c,
                   dc_percent = percent_of 2 (ca_quantity c) (decade_total i2s sm cm inventoryParts d)\<rparr>)
          (take 10 (sortedColors cm (decade_rows i2s sm d inventoryParts)))\<rparr>"

definition decade_label ::
  "(string \<rightharpoonup> string) \<Rightarrow> (string \<rightharpoonup> LegoSet) \<Rightarrow> InventoryPart \<Rightarrow> string option" where
  "decade_label i2s sm ip =
     (case resolve_year i2s sm ip of
        None \<Rightarrow> None
      | Some (setNum, yr) \<Rightarrow>
          map_option d_decade (find (\<lambda>d. d_startYear d \<le> yr \<and> yr \<le> d_endYear d) decades))"

text \<open>
  The invariant of the sampling loop after \<open>n\<close> iterations: the sampled points are input
  points with pairwise different ranks, at most \<open>n\<close> of them, and \<open>seenRanks\<close> is the set
  of their ranks.
\<close>

definition sample_inv :: "CurvePoint list \<Rightarrow> nat \<Rightarrow> CurvePoint list \<times> nat set \<Rightarrow> bool" where
  "sample_inv data n st =
     (set (fst st) \<subseteq> set data \<and> snd st = cp_rank ` set (fst st)
      \<and> distinct (map cp_rank (fst st)) \<and> length (fst st) \<le> n)"

section \<open>Custom year ranges in the dashboard\<close>
























section \<open>Example inputs\<close>

text \<open>The two colors of the end-to-end scenario, as coverage items.\<close>

definition c2_items :: "CoverageItem list" where
  "c2_items = [\<lparr>name = ''Red'', percent = Num 75, cumulative_percent = Num 75\<rparr>,
               \<lparr>name = ''Blue'', percent = Num 25, cumulative_percent = Num 100\<rparr>]"

text \<open>A row whose part number and color id are in no reference table.\<close>

definition c6_row :: InventoryPart where
  "c6_row = \<lparr>ip_inventory_id = ''1'', ip_part_num = ''3001'', ip_color_id = ''99'',
             ip_quantity = ''3'', ip_is_spare = ''f'', ip_img_url = ''''\<rparr>"

text \<open>One color, and two rows for the same part: the first names an unknown color.\<close>

definition c7_colors :: "Color list" where
  "c7_colors = [\<lparr>c_id = ''1'', c_name = ''Red'', c_rgb = ''FF0000'', c_is_trans = ''f''\<rparr>]"

definition c7_row :: InventoryPart where
  "c7_row = \<lparr>ip_inventory_id = ''1'', ip_part_num = ''3001'', ip_color_id = ''99'',
             ip_quantity = ''3'', ip_is_spare = ''f'', ip_img_url = ''''\<rparr>"

definition c7_rows :: "InventoryPart list" where
  "c7_rows = [c7_row,
              \<lparr>ip_inventory_id = ''1'', ip_part_num = ''3001'', ip_color_id = ''1'',
               ip_quantity = ''4'', ip_is_spare = ''f'', ip_img_url = ''''\<rparr>]"

text \<open>222 rows, each for a part of its own (numbered in unary) and each of quantity 1.\<close>

definition c1_row :: "nat \<Rightarrow> InventoryPart" where
  "c1_row i = \<lparr>ip_inventory_id = ''1'', ip_part_num = replicate (Suc i) CHR ''1'', ip_color_id = ''1'',
             ip_quantity = ''1'', ip_is_spare = ''f'', ip_img_url = ''''\<rparr>"

definition c1_rows :: "InventoryPart list" where
  "c1_rows = map c1_row [0..<222]"

text \<open>The end-to-end scenario: Red 300 and Blue 100 pieces, part A 250 and part B 150.\<close>

definition scenario_colors :: "Color list" where
  "scenario_colors =
     [\<lparr>c_id = ''1'', c_name = ''Red'', c_rgb = ''FF0000'', c_is_trans = ''f''\<rparr>,
      \<lparr>c_id = ''2'', c_name = ''Blue'', c_rgb = ''0000FF'', c_is_trans = ''f''\<rparr>]"

definition scenario_rows :: "InventoryPart list" where
  "scenario_rows =
     [\<lparr>ip_inventory_id = ''10'', ip_part_num = ''A'', ip_color_id = ''1'',
       ip_quantity = ''250'', ip_is_spare = ''f'', ip_img_url = ''''\<rparr>,
      \<lparr>ip_inventory_id = ''10'', ip_part_num = ''B'', ip_color_id = ''2'',
       ip_quantity = ''100'', ip_is_spare = ''f'', ip_img_url = ''''\<rparr>,
      \<lparr>ip_inventory_id = ''10'', ip_part_num = ''B'', ip_color_id = ''1'',
       ip_quantity = ''50'', ip_is_spare = ''f'', ip_img_url = ''''\<rparr>]"

text \<open>
  A year-trend input: two sets of 2015 (one of them with an inventory), one set of 2005
  and one of 1940, and three rows, the last of an inventory that does not exist.
\<close>

definition yt_sets :: "LegoSet list" where
  "yt_sets =
     [\<lparr>s_set_num = ''100-1'', s_name = ''Castle'', s_year = ''2015'', s_theme_id = ''1'', s_num_parts = ''10''\<rparr>,
      \<lparr>s_set_num = ''200-1'', s_name = ''Ship'', s_year = ''2005'', s_theme_id = ''1'', s_num_parts = ''20''\<rparr>,
      \<lparr>s_set_num = ''300-1'', s_name = ''Duck'', s_year = ''1940'', s_theme_id = ''1'', s_num_parts = ''5''\<rparr>,
      \<lparr>s_set_num = ''400-1'', s_name = ''Car'', s_year = ''2015'', s_theme_id = ''1'', s_num_parts = ''7''\<rparr>]"

definition yt_inventories :: "Inventory list" where
  "yt_inventories = [\<lparr>i_id = ''1'', i_version = ''1'', i_set_num = ''100-1''\<rparr>]"

definition yt_rows :: "InventoryPart list" where
  "yt_rows =
     [\<lparr>ip_inventory_id = ''1'', ip_part_num = ''A'', ip_color_id = ''1'',
       ip_quantity = ''5'', ip_is_spare = ''f'', ip_img_url = ''''\<rparr>,
      \<lparr>ip_inventory_id = ''1'', ip_part_num = ''B'', ip_color_id = ''2'',
       ip_quantity = ''3'', ip_is_spare = ''f'', ip_img_url = ''''\<rparr>,
      \<lparr>ip_inventory_id = ''9'', ip_part_num = ''B'', ip_color_id = ''2'',
       ip_quantity = ''4'', ip_is_spare = ''f'', ip_img_url = ''''\<rparr>]"

definition yt_inventoryYearTrends :: "YearTrend list" where
  "yt_inventoryYearTrends =
     inventoryYearTrends (inventoryToSetMap yt_inventories) (setMap yt_sets)
       (colorMap scenario_colors) (partMap []) yt_rows"

definition yt_setsOnlyYearTrends :: "YearTrend list" where
  "yt_setsOnlyYearTrends =
     setsOnlyYearTrends (inventoryToSetMap yt_inventories) (setMap yt_sets)
       (colorMap scenario_colors) (partMap []) yt_sets yt_rows"

definition yt_yearTrends :: "YearTrend list" where
  "yt_yearTrends =
     yearTrends (inventoryToSetMap yt_inventories) (setMap yt_sets)
       (colorMap scenario_colors) (partMap []) yt_sets yt_rows"

text \<open>One row of quantity 0 for a known color, in an inventory of a 2015 set.\<close>

definition c5_rows :: "InventoryPart list" where
  "c5_rows =
     [\<lparr>ip_inventory_id = ''1'', ip_part_num = ''A'', ip_color_id = ''1'',
       ip_quantity = ''0'', ip_is_spare = ''f'', ip_img_url = ''''\<rparr>]"

text \<open>Six colors, and six rows of one piece each in an inventory of a 2015 set.\<close>

definition c9_colors :: "Color list" where
  "c9_colors =
     [\<lparr>c_id = ''1'', c_name = ''Red'', c_rgb = ''FF0000'', c_is_trans = ''f''\<rparr>,
      \<lparr>c_id = ''2'', c_name = ''Blue'', c_rgb = ''0000FF'', c_is_trans = ''f''\<rparr>,
      \<lparr>c_id = ''3'', c_name = ''Green'', c_rgb = ''00FF00'', c_is_trans = ''f''\<rparr>,
      \<lparr>c_id = ''4'', c_name = ''Black'', c_rgb = ''000000'', c_is_trans = ''f''\<rparr>,
      \<lparr>c_id = ''5'', c_name = ''White'', c_rgb = ''FFFFFF'', c_is_trans = ''f''\<rparr>,
      \<lparr>c_id = ''6'', c_name = ''Yellow'', c_rgb = ''FFFF00'', c_is_trans = ''f''\<rparr>]"

definition c9_row :: "string \<Rightarrow> InventoryPart" where
  "c9_row cid = \<lparr>ip_inventory_id = ''1'', ip_part_num = ''A'', ip_color_id = cid,
                 ip_quantity = ''1'', ip_is_spare = ''f'', ip_img_url = ''''\<rparr>"

definition c9_rows :: "InventoryPart list" where
  "c9_rows = map c9_row [''1'', ''2'', ''3'', ''4'', ''5'', ''6'']"

definition c9_decadeColors :: "DecadeColors list" where
  "c9_decadeColors =
     decadeColors (inventoryToSetMap yt_inventories) (setMap yt_sets) (colorMap c9_colors) c9_rows"

definition decade_2010s :: Decade where
  "decade_2010s = \<lparr>d_decade = ''2010s'', d_startYear = 2010, d_endYear = 2019\<rparr>"

definition c9_expected :: DecadeColors where
  "c9_expected =
     \<lparr>dcs_decade = ''2010s'',
      dcs_colors =
        [\<lparr>dc_name = ''Red'', dc_color = ''#FF0000'', dc_percent = Num (1667 / 100)\<rparr>,
         \<lparr>dc_name = ''Blue'', dc_color = ''#0000FF'', dc_percent = Num (1667 / 100)\<rparr>,
         \<lparr>dc_name = ''Green'', dc_color = ''#00FF00'', dc_percent = Num (1667 / 100)\<rparr>,
         \<lparr>dc_name = ''Black'', dc_color = ''#000000'', dc_percent = Num (1667 / 100)\<rparr>,
         \<lparr>dc_name = ''White'', dc_color = ''#FFFFFF'', dc_percent = Num (1667 / 100)\<rparr>,
         \<lparr>dc_name = ''Yellow'', dc_color = ''#FFFF00'', dc_percent = Num (1667 / 100)\<rparr>]\<rparr>"

text \<open>
  Curve points with ranks 1 to 4. For \<^verbatim>\<open>maxPoints = 2\<close> and 4 points the sampled ranks
  \<^verbatim>\<open>Math.round(Math.pow(10, (i / 2) * Math.log10(4)))\<close> are 1 for \<open>i = 0\<close> and 2 for
  \<open>i = 1\<close>; \<open>c3_log_rank\<close> has these values.
\<close>

definition c3_point :: "nat \<Rightarrow> CurvePoint" where
  "c3_point r = \<lparr>cp_rank = r, cp_name = ''3001'', cp_quantity = 1, cp_cumulative_percent = Num 25\<rparr>"

definition c3_data :: "CurvePoint list" where
  "c3_data = map c3_point [1, 2, 3, 4]"

definition c3_log_rank :: "nat \<Rightarrow> nat \<Rightarrow> nat \<Rightarrow> int" where
  "c3_log_rank maxPoints n i = (if i = 0 then 1 else 2)"








section \<open>Properties of the threshold search\<close>


declare findThresholdIndex_from.simps [simp del]

lemma findThresholdIndex_from_none:
  "\<forall>j. i \<le> j \<and> j < length xs \<longrightarrow> \<not> js_ge (cumulative_percent (xs ! j)) t \<Longrightarrow>
   findThresholdIndex_from i xs t = length xs"
proof (induction i xs t rule: findThresholdIndex_from.induct)
  case (1 i xs t)
  show ?case
  proof (cases "i < length xs")
    case True
    with "1.prems" have no: "\<not> js_ge (cumulative_percent (xs ! i)) t" by simp
    have "findThresholdIndex_from (i + 1) xs t = length xs"
      using "1.IH" [OF True no] "1.prems" by simp
    with True no show ?thesis
      by (subst findThresholdIndex_from.simps) simp
  next
    case False
    then show ?thesis by (subst findThresholdIndex_from.simps) simp
  qed
qed

lemma findThresholdIndex_from_first:
  "i \<le> k \<Longrightarrow> k < length xs \<Longrightarrow> js_ge (cumulative_percent (xs ! k)) t \<Longrightarrow>
   \<forall>j. i \<le> j \<and> j < k \<longrightarrow> \<not> js_ge (cumulative_percent (xs ! j)) t \<Longrightarrow>
   findThresholdIndex_from i xs t = k + 1"
proof (induction i xs t rule: findThresholdIndex_from.induct)
  case (1 i xs t)
  from "1.prems" have lt: "i < length xs" by simp
  show ?case
  proof (cases "i = k")
    case True
    with "1.prems" lt show ?thesis
      by (subst findThresholdIndex_from.simps) simp
  next
    case False
    with "1.prems" have ik: "i < k" by simp
    with "1.prems" have no: "\<not> js_ge (cumulative_percent (xs ! i)) t" by simp
    have "findThresholdIndex_from (i + 1) xs t = k + 1"
      using "1.IH" [OF lt no] "1.prems" ik by simp
    with lt no show ?thesis
      by (subst findThresholdIndex_from.simps) simp
  qed
qed

text \<open>
  Claim C2. The threshold search returns the smallest 1-based count \<open>C\<close> whose item
  \<open>C - 1\<close> has a cumulative percent of at least the threshold, and the length of the
  sequence when no item reaches it; the items of the result are the first
  \<open>min C 10\<close> items, each reduced to name, percent and cumulative percent. This holds for
  every threshold, in particular for 50, 80, 90, 95 and 99.
\<close>

theorem C2_threshold_search:
  fixes xs :: "'a CoverageItem_scheme list"
  shows "(k < length xs \<and> js_ge (cumulative_percent (xs ! k)) t \<and>
            (\<forall>j<k. \<not> js_ge (cumulative_percent (xs ! j)) t)
          \<longrightarrow> findThresholdIndex xs t = k + 1)
       \<and> ((\<forall>j<length xs. \<not> js_ge (cumulative_percent (xs ! j)) t)
          \<longrightarrow> findThresholdIndex xs t = length xs)
       \<and> count (getThresholdItems xs t) = findThresholdIndex xs t
       \<and> items (getThresholdItems xs t)
           = map (\<lambda>x. \<lparr>name = name x, percent = percent x,
                        cumulative_percent = cumulative_percent x\<rparr>)
               (take (min (findThresholdIndex xs t) 10) xs)"
proof (intro conjI impI)
  assume "k < length xs \<and> js_ge (cumulative_percent (xs ! k)) t \<and>
          (\<forall>j<k. \<not> js_ge (cumulative_percent (xs ! j)) t)"
  then show "findThresholdIndex xs t = k + 1"
    unfolding findThresholdIndex_def
    by (intro findThresholdIndex_from_first) auto
next
  assume "\<forall>j<length xs. \<not> js_ge (cumulative_percent (xs ! j)) t"
  then show "findThresholdIndex xs t = length xs"
    unfolding findThresholdIndex_def
    by (intro findThresholdIndex_from_none) auto
next
  show "count (getThresholdItems xs t) = findThresholdIndex xs t"
    by (simp add: getThresholdItems_def Let_def)
next
  show "items (getThresholdItems xs t)
          = map (\<lambda>x. \<lparr>name = name x, percent = percent x,
                       cumulative_percent = cumulative_percent x\<rparr>)
              (take (min (findThresholdIndex xs t) 10) xs)"
    by (simp add: getThresholdItems_def Let_def threshold_item_def fun_eq_iff cong: map_cong)
qed

theorem C2_threshold_search_witness:
  "findThresholdIndex c2_items (Num 80) = 2
   \<and> findThresholdIndex c2_items (Num 101) = 2
   \<and> count (getThresholdItems c2_items (Num 50)) = 1
   \<and> items (getThresholdItems c2_items (Num 50)) =
        [\<lparr>name = ''Red'', percent = Num 75, cumulative_percent = Num 75\<rparr>]"
proof -
  have a: "findThresholdIndex c2_items (Num 80) = 2"
    using C2_threshold_search [of 1 c2_items "Num 80"] by (simp add: c2_items_def)
  have b: "findThresholdIndex c2_items (Num 101) = 2"
    using C2_threshold_search [of 0 c2_items "Num 101"]
    by (simp add: c2_items_def All_less_Suc)
  have c: "findThresholdIndex c2_items (Num 50) = 1"
    using C2_threshold_search [of 0 c2_items "Num 50"] by (simp add: c2_items_def)
  have d: "count (getThresholdItems c2_items (Num 50)) = 1"
    using C2_threshold_search [of 0 c2_items "Num 50"] c by simp
  have e: "items (getThresholdItems c2_items (Num 50)) =
        [\<lparr>name = ''Red'', percent = Num 75, cumulative_percent = Num 75\<rparr>]"
    using C2_threshold_search [of 0 c2_items "Num 50"] c by (simp add: c2_items_def)
  from a b d e show ?thesis by simp
qed

section \<open>Properties of the part and color aggregators\<close>

lemma partAgg_step_keys:
  "map fst (partAgg_step ip agg) =
     (if ip_part_num ip \<in> set (map fst agg) then map fst agg else map fst agg @ [ip_part_num ip])"
  by (simp add: partAgg_step_def Let_def AList.update_keys split: option.split)

lemma partAgg_step_distinct:
  "distinct (map fst agg) \<Longrightarrow> distinct (map fst (partAgg_step ip agg))"
  by (simp add: partAgg_step_keys)

lemma partAgg_step_lookup:
  "map_option pa_quantity (map_of (partAgg_step ip agg) k) =
     (if k = ip_part_num ip
      then Some ((case map_of agg k of None \<Rightarrow> 0 | Some v \<Rightarrow> pa_quantity v) + row_quantity ip)
      else map_option pa_quantity (map_of agg k))"
  by (simp add: partAgg_step_def Let_def AList.update_conv' row_quantity_def split: option.split)

lemma set_update_subset: "set (AList.update k v al) \<subseteq> insert (k, v) (set al)"
  by (induction al) auto

lemma partAgg_step_part_num:
  assumes a: "\<forall>(k, v) \<in> set agg. pa_part_num v = k"
  shows "\<forall>(k, v) \<in> set (partAgg_step ip agg). pa_part_num v = k"
proof (cases "map_of agg (ip_part_num ip)")
  case None
  then show ?thesis using a set_update_subset [of "ip_part_num ip" _ agg]
    by (fastforce simp: partAgg_step_def Let_def)
next
  case (Some ex)
  then have "(ip_part_num ip, ex) \<in> set agg" by (rule map_of_SomeD)
  with a have "pa_part_num ex = ip_part_num ip" by auto
  then show ?thesis using a Some set_update_subset [of "ip_part_num ip" _ agg]
    by (fastforce simp: partAgg_step_def Let_def)
qed

lemma part_quantity_notin: "k \<notin> ip_part_num ` set ips \<Longrightarrow> part_quantity k ips = 0"
  by (induction ips) (auto simp: part_quantity_def)

lemma part_quantity_Cons:
  "part_quantity k (ip # ips) = (if ip_part_num ip = k then row_quantity ip else 0) + part_quantity k ips"
  by (simp add: part_quantity_def)

lemma partAgg_fold_inv:
  "distinct (map fst agg) \<Longrightarrow> \<forall>(k, v) \<in> set agg. pa_part_num v = k \<Longrightarrow>
   distinct (map fst (fold partAgg_step ips agg))
   \<and> (\<forall>(k, v) \<in> set (fold partAgg_step ips agg). pa_part_num v = k)"
proof (induction ips arbitrary: agg)
  case Nil
  then show ?case by simp
next
  case (Cons ip ips)
  show ?case
    using Cons.IH [OF partAgg_step_distinct [OF Cons.prems(1)] partAgg_step_part_num [OF Cons.prems(2)]]
    by simp
qed

lemma partAgg_fold_lookup:
  "map_option pa_quantity (map_of (fold partAgg_step ips agg) k) =
     (if k \<in> ip_part_num ` set ips
      then Some ((case map_of agg k of None \<Rightarrow> 0 | Some v \<Rightarrow> pa_quantity v) + part_quantity k ips)
      else map_option pa_quantity (map_of agg k))"
proof (induction ips arbitrary: agg)
  case Nil
  then show ?case by simp
next
  case (Cons ip ips)
  show ?case
  proof (cases "k = ip_part_num ip")
    case True
    have "map_of (partAgg_step ip agg) k \<noteq> None"
      using partAgg_step_lookup [of ip agg k] True by (metis option.map_disc_iff option.distinct(1))
    then obtain w where w: "map_of (partAgg_step ip agg) k = Some w" by auto
    with partAgg_step_lookup [of ip agg k] True
    have q: "pa_quantity w = (case map_of agg k of None \<Rightarrow> 0 | Some v \<Rightarrow> pa_quantity v) + row_quantity ip"
      by simp
    show ?thesis
      using Cons.IH [of "partAgg_step ip agg"] True w q
      by (auto simp: part_quantity_Cons part_quantity_notin)
  next
    case False
    have same: "map_option pa_quantity (map_of (partAgg_step ip agg) k) = map_option pa_quantity (map_of agg k)"
      using partAgg_step_lookup [of ip agg k] False by simp
    have same': "(case map_of (partAgg_step ip agg) k of None \<Rightarrow> 0 | Some v \<Rightarrow> pa_quantity v)
               = (case map_of agg k of None \<Rightarrow> 0 | Some v \<Rightarrow> pa_quantity v)"
      using same by (auto split: option.splits)
    show ?thesis
      using Cons.IH [of "partAgg_step ip agg"] False same same'
      by (auto simp: part_quantity_Cons)
  qed
qed

lemma partAgg_entry:
  assumes "ip \<in> set ips"
  shows "\<exists>v. (ip_part_num ip, v) \<in> set (partAgg ips) \<and> pa_part_num v = ip_part_num ip
            \<and> pa_quantity v = part_quantity (ip_part_num ip) ips"
proof -
  have "map_option pa_quantity (map_of (partAgg ips) (ip_part_num ip))
          = Some (part_quantity (ip_part_num ip) ips)"
    using partAgg_fold_lookup [of ips "[]" "ip_part_num ip"] assms by (simp add: partAgg_def)
  then obtain v where v: "map_of (partAgg ips) (ip_part_num ip) = Some v"
      and q: "pa_quantity v = part_quantity (ip_part_num ip) ips"
    by auto
  from v have m: "(ip_part_num ip, v) \<in> set (partAgg ips)" by (rule map_of_SomeD)
  moreover have "pa_part_num v = ip_part_num ip"
    using partAgg_fold_inv [of "[]" ips] m by (auto simp: partAgg_def)
  ultimately show ?thesis using q by blast
qed

lemma partFrequency_from_fields:
  "map (\<lambda>e. (part_num e, quantity e, name e)) (partFrequency_from pm tot cum i ps)
     = map (\<lambda>p. (pa_part_num p, pa_quantity p, name_or_Unknown pm (pa_part_num p))) ps"
  by (induction ps arbitrary: cum i) simp_all

lemma partFrequency_part_nums:
  "map part_num (partFrequency pm ips) = map pa_part_num (sortedParts ips)"
proof -
  have "map part_num (partFrequency pm ips)
        = map fst (map (\<lambda>e. (part_num e, quantity e, name e)) (partFrequency pm ips))"
    by (simp add: comp_def)
  also have "\<dots> = map pa_part_num (sortedParts ips)"
    unfolding partFrequency_def partFrequency_from_fields by (simp add: comp_def)
  finally show ?thesis .
qed

lemma partAgg_values_part_num:
  "map pa_part_num (map snd (partAgg ips)) = map fst (partAgg ips)"
  using partAgg_fold_inv [of "[]" ips] by (auto simp: partAgg_def)

lemma distinct_map_sort_key:
  "distinct (map f (sort_key g xs)) = distinct (map f xs)"
  by (simp add: distinct_map)

lemma partFrequency_distinct: "distinct (map part_num (partFrequency pm ips))"
proof -
  have "distinct (map fst (partAgg ips))"
    using partAgg_fold_inv [of "[]" ips] by (simp add: partAgg_def)
  then have "distinct (map pa_part_num (map snd (partAgg ips)))"
    by (simp only: partAgg_values_part_num)
  then show ?thesis
    by (simp only: partFrequency_part_nums sortedParts_def distinct_map_sort_key)
qed

lemma partFrequency_entry:
  assumes "ip \<in> set ips"
  shows "\<exists>e \<in> set (partFrequency pm ips). part_num e = ip_part_num ip
            \<and> quantity e = part_quantity (ip_part_num ip) ips
            \<and> name e = name_or_Unknown pm (ip_part_num ip)"
proof -
  from partAgg_entry [OF assms] obtain v where
    v: "(ip_part_num ip, v) \<in> set (partAgg ips)" "pa_part_num v = ip_part_num ip"
       "pa_quantity v = part_quantity (ip_part_num ip) ips" by blast
  then have "v \<in> set (sortedParts ips)" by (force simp: sortedParts_def)
  then have "(pa_part_num v, pa_quantity v, name_or_Unknown pm (pa_part_num v))
         \<in> set (map (\<lambda>e. (part_num e, quantity e, name e)) (partFrequency pm ips))"
    unfolding partFrequency_def partFrequency_from_fields by force
  then obtain e where "e \<in> set (partFrequency pm ips)"
     "part_num e = pa_part_num v" "quantity e = pa_quantity v"
     "name e = name_or_Unknown pm (pa_part_num v)" by auto
  with v show ?thesis by auto
qed

lemma colorAgg_step_unresolved: "cm (ip_color_id ip) = None \<Longrightarrow> colorAgg_step cm ip agg = agg"
  by (simp add: colorAgg_step_def)

lemma colorAgg_fold_removeAll:
  "cm (ip_color_id ip) = None \<Longrightarrow>
   fold (colorAgg_step cm) (removeAll ip ips) agg = fold (colorAgg_step cm) ips agg"
  by (induction ips arbitrary: agg) (auto simp: colorAgg_step_unresolved)

lemma part_quantity_remove1:
  "ip \<in> set ips \<Longrightarrow>
   part_quantity (ip_part_num ip) ips = row_quantity ip + part_quantity (ip_part_num ip) (remove1 ip ips)"
  by (induction ips) (auto simp: part_quantity_Cons)

text \<open>
  Claim C6, as the code has it. The Part Aggregator never consults the part reference map
  while grouping, so a row whose part number is not in the map is kept: the
  part-frequency output has exactly one entry for the row's part number, its quantity is
  the sum over all rows with that part number, and when the part is unknown the entry is
  named \<^verbatim>\<open>Unknown\<close>.
\<close>

theorem C6_unknown_part_kept:
  assumes "ip \<in> set ips"
  shows "distinct (map part_num (partFrequency pm ips))
       \<and> (\<exists>e \<in> set (partFrequency pm ips).
            part_num e = ip_part_num ip
          \<and> quantity e = part_quantity (ip_part_num ip) ips
          \<and> (pm (ip_part_num ip) = None \<longrightarrow> name e = ''Unknown''))"
proof -
  from partFrequency_entry [OF assms, of pm] obtain e where
    e: "e \<in> set (partFrequency pm ips)" "part_num e = ip_part_num ip"
       "quantity e = part_quantity (ip_part_num ip) ips"
       "name e = name_or_Unknown pm (ip_part_num ip)" by blast
  have "pm (ip_part_num ip) = None \<longrightarrow> name e = ''Unknown''"
    using e(4) by (simp add: name_or_Unknown_def)
  with e have "\<exists>e \<in> set (partFrequency pm ips).
            part_num e = ip_part_num ip
          \<and> quantity e = part_quantity (ip_part_num ip) ips
          \<and> (pm (ip_part_num ip) = None \<longrightarrow> name e = ''Unknown'')"
    by (intro bexI [of _ e]) simp_all
  then show ?thesis using partFrequency_distinct [of pm ips] by simp
qed

text \<open>
  The claim as stated (``the row is skipped'') fails on one row whose part number is in
  no part table: the output has an entry for it.
\<close>

theorem C6_unknown_part_counterexample:
  "partMap [] (ip_part_num c6_row) = None
   \<and> map part_num (partFrequency (partMap []) [c6_row]) = [ip_part_num c6_row]
   \<and> map quantity (partFrequency (partMap []) [c6_row]) = [3]"
  by code_simp

theorem C6_unknown_part_kept_witness:
  "c6_row \<in> set [c6_row] \<and> partMap [] ''3001'' = None
   \<and> (\<exists>e \<in> set (partFrequency (partMap []) [c6_row]).
         part_num e = ''3001'' \<and> quantity e = 3 \<and> name e = ''Unknown'')"
proof -
  have q: "part_quantity ''3001'' [c6_row] = 3" by code_simp
  have n: "partMap [] ''3001'' = None" by (simp add: partMap_def)
  have p: "ip_part_num c6_row = ''3001''" by (simp add: c6_row_def)
  show ?thesis
    using C6_unknown_part_kept [of c6_row "[c6_row]" "partMap []"] q n p by simp
qed

text \<open>
  Claim C7. A row whose color id is not in the color reference map leaves the color
  stats exactly as they are without the row, while its quantity is part of the
  part-frequency entry of its part number.
\<close>

theorem C7_unknown_color_row:
  assumes "ip \<in> set ips" and "cm (ip_color_id ip) = None"
  shows "colorStats cm ips = colorStats cm (removeAll ip ips)
       \<and> (\<exists>e \<in> set (partFrequency pm ips).
            part_num e = ip_part_num ip
          \<and> quantity e = row_quantity ip + part_quantity (ip_part_num ip) (remove1 ip ips))"
proof -
  have "colorAgg cm (removeAll ip ips) = colorAgg cm ips"
    using assms(2) by (simp add: colorAgg_def colorAgg_fold_removeAll)
  then have c: "colorStats cm ips = colorStats cm (removeAll ip ips)"
    by (simp add: colorStats_def totalPieces_def sortedColors_def)
  from partFrequency_entry [OF assms(1), of pm] obtain e where
    "e \<in> set (partFrequency pm ips)" "part_num e = ip_part_num ip"
    "quantity e = part_quantity (ip_part_num ip) ips" by blast
  with part_quantity_remove1 [OF assms(1)] c show ?thesis by auto
qed

theorem C7_unknown_color_row_witness:
  "c7_row \<in> set c7_rows \<and> colorMap c7_colors (ip_color_id c7_row) = None
   \<and> colorStats (colorMap c7_colors) c7_rows
       = colorStats (colorMap c7_colors) (removeAll c7_row c7_rows)
   \<and> (\<exists>e \<in> set (partFrequency (partMap []) c7_rows). part_num e = ''3001'' \<and> quantity e = 7)"
proof -
  have m: "c7_row \<in> set c7_rows" by (simp add: c7_rows_def)
  have n: "colorMap c7_colors (ip_color_id c7_row) = None" by code_simp
  have p: "ip_part_num c7_row = ''3001''" by (simp add: c7_row_def)
  have q: "row_quantity c7_row + part_quantity ''3001'' (remove1 c7_row c7_rows) = 7"
    by code_simp
  show ?thesis
    using C7_unknown_color_row [of c7_row c7_rows "colorMap c7_colors" "partMap []"] m n p q
    by simp
qed

section \<open>Rounding to a double\<close>

lemma round_half_even_error: "\<bar>of_int (round_half_even y) - y\<bar> \<le> 1 / 2"
proof -
  have "of_int \<lfloor>y\<rfloor> \<le> y" "y < of_int \<lfloor>y\<rfloor> + 1" by linarith+
  then show ?thesis by (auto simp: round_half_even_def Let_def)
qed

lemma bit_length_bounds:
  "0 < n \<Longrightarrow> 2 ^ (bit_length n - 1) \<le> n \<and> n < 2 ^ bit_length n"
proof (induction n rule: bit_length.induct)
  case (1 n)
  show ?case
  proof (cases "n = 1")
    case True
    then show ?thesis by simp
  next
    case False
    with "1.prems" have h: "0 < n div 2" by simp
    from "1.IH" [OF _ h] "1.prems"
    have lo: "2 ^ (bit_length (n div 2) - 1) \<le> n div 2" and hi: "n div 2 < 2 ^ bit_length (n div 2)"
      by simp_all
    from h have b: "0 < bit_length (n div 2)"
      by (simp del: bit_length.simps add: bit_length.simps [of "n div 2"])
    have bl: "bit_length n = Suc (bit_length (n div 2))" using "1.prems" by simp
    have "2 * 2 ^ (bit_length (n div 2) - 1) \<le> n" using lo by linarith
    moreover have "(2::int) * 2 ^ (bit_length (n div 2) - 1) = 2 ^ bit_length (n div 2)"
      using b by (cases "bit_length (n div 2)") simp_all
    moreover have "n < 2 * 2 ^ bit_length (n div 2)" using hi by linarith
    ultimately show ?thesis by (simp only: bl diff_Suc_1 power_Suc)
  qed
qed

lemma power_int_nat_diff: "power_int (2::rat) (int a - int b) = 2 ^ a / 2 ^ b"
  by (simp add: power_int_diff)

text \<open>The exponent is the right one: the significand has 53 bits.\<close>

lemma binary_exponent_bounds:
  assumes "0 < x"
  shows "power_int 2 (binary_exponent x) \<le> x \<and> x < power_int 2 (binary_exponent x + 1)"
proof -
  obtain p q where pq: "quotient_of x = (p, q)" by (cases "quotient_of x")
  then have q: "0 < q" and x: "x = of_int p / of_int q"
    by (simp_all add: quotient_of_denom_pos quotient_of_div)
  from assms x q have p: "0 < p" by (simp add: zero_less_divide_iff)
  define bp bq where "bp = bit_length p" and "bq = bit_length q"
  from bit_length_bounds [OF p] bit_length_bounds [OF q]
  have plo: "2 ^ (bp - 1) \<le> p" and phi: "p < 2 ^ bp" and qlo: "2 ^ (bq - 1) \<le> q" and qhi: "q < 2 ^ bq"
    by (simp_all only: bp_def bq_def)
  have bp: "0 < bp" and bq: "0 < bq" using p q by (simp_all add: bp_def bq_def)
  define e where "e = int bp - int bq"
  have e1: "e - 1 = int (bp - 1) - int bq" using bp by (simp add: e_def of_nat_diff)
  have e2: "e + 1 = int bp - int (bq - 1)" using bq by (simp add: e_def of_nat_diff)
  have qr: "(0::rat) < of_int q" and pr: "(0::rat) < of_int p" using q p by simp_all
  have plo': "(2::rat) ^ (bp - 1) \<le> of_int p"
  proof -
    have "(of_int (2 ^ (bp - 1)) :: rat) \<le> of_int p" using plo by (simp only: of_int_le_iff)
    then show ?thesis by simp
  qed
  have phi': "of_int p < (2::rat) ^ bp"
  proof -
    have "(of_int p :: rat) < of_int (2 ^ bp)" using phi by (simp only: of_int_less_iff)
    then show ?thesis by simp
  qed
  have qlo': "(2::rat) ^ (bq - 1) \<le> of_int q"
  proof -
    have "(of_int (2 ^ (bq - 1)) :: rat) \<le> of_int q" using qlo by (simp only: of_int_le_iff)
    then show ?thesis by simp
  qed
  have qhi': "of_int q \<le> (2::rat) ^ bq"
  proof -
    have "(of_int q :: rat) < of_int (2 ^ bq)" using qhi by (simp only: of_int_less_iff)
    then show ?thesis by simp
  qed
  have lo: "power_int 2 (e - 1) \<le> x"
  proof -
    have "power_int (2::rat) (e - 1) = 2 ^ (bp - 1) / 2 ^ bq"
      unfolding e1 by (rule power_int_nat_diff)
    also have "\<dots> \<le> of_int p / 2 ^ bq"
      using plo' by (rule divide_right_mono) simp
    also have "\<dots> \<le> of_int p / of_int q"
      using qhi' pr qr by (intro divide_left_mono) simp_all
    finally show ?thesis by (simp only: x)
  qed
  have hi: "x < power_int 2 (e + 1)"
  proof -
    have "x = of_int p / of_int q" by (rule x)
    also have "\<dots> < 2 ^ bp / of_int q"
      using phi' qr by (rule divide_strict_right_mono)
    also have "\<dots> \<le> 2 ^ bp / 2 ^ (bq - 1)"
      using qlo' qr by (intro divide_left_mono mult_pos_pos) simp_all
    also have "\<dots> = power_int (2::rat) (e + 1)"
      unfolding e2 by (rule power_int_nat_diff [symmetric])
    finally show ?thesis .
  qed
  have be: "binary_exponent x = (if power_int 2 e \<le> x then e else e - 1)"
    by (simp add: binary_exponent_def pq e_def bp_def bq_def)
  show ?thesis
  proof (cases "power_int 2 e \<le> x")
    case True
    with hi show ?thesis by (simp only: be if_True simp_thms)
  next
    case False
    then have "x < power_int 2 (e - 1 + 1)" by simp
    with lo False show ?thesis by (simp only: be if_False simp_thms)
  qed
qed

text \<open>The relative error of one rounding is at most \<open>2^-53\<close>.\<close>

lemma fl64_error: "\<bar>fl64 x - x\<bar> \<le> \<bar>x\<bar> / 2 ^ 53"
proof (cases "x = 0")
  case True
  then show ?thesis by (simp add: fl64_def)
next
  case False
  define a where "a = \<bar>x\<bar>"
  define e where "e = binary_exponent a"
  define m where "m = round_half_even (a * power_int 2 (52 - e))"
  have a: "0 < a" using False by (simp add: a_def)
  from binary_exponent_bounds [OF a] have lo: "power_int 2 e \<le> a" by (simp add: e_def)
  have pos: "(0::rat) < power_int 2 (e - 52)" by simp
  have inv: "power_int (2::rat) (52 - e) * power_int 2 (e - 52) = 1"
    by (simp flip: power_int_add)
  have fl: "fl64 x = sgn x * (of_int m * power_int 2 (e - 52))"
    using False by (simp add: fl64_def Let_def a_def e_def m_def mult.assoc)
  have xs: "x = sgn x * a" by (simp add: a_def sgn_mult_abs)
  have "fl64 x - x = sgn x * (of_int m * power_int 2 (e - 52) - a)"
    by (subst (2) xs) (simp add: fl right_diff_distrib)
  then have "\<bar>fl64 x - x\<bar> = \<bar>of_int m * power_int 2 (e - 52) - a\<bar>"
    using False by (simp add: abs_mult abs_sgn_eq)
  also have "of_int m * power_int 2 (e - 52) - a
      = (of_int m - a * power_int 2 (52 - e)) * power_int 2 (e - 52)"
    using inv by (simp add: left_diff_distrib mult.assoc)
  also have "\<bar>\<dots>\<bar> = \<bar>of_int m - a * power_int 2 (52 - e)\<bar> * power_int 2 (e - 52)"
    using pos by (simp add: abs_mult)
  also have "\<dots> \<le> (1 / 2) * power_int 2 (e - 52)"
    using round_half_even_error [of "a * power_int 2 (52 - e)"] pos
    by (intro mult_right_mono) (simp_all add: m_def)
  also have "\<dots> = power_int 2 e / 2 ^ 53"
    by (simp add: power_int_diff)
  also have "\<dots> \<le> a / 2 ^ 53"
    using lo by (intro divide_right_mono) simp_all
  finally show ?thesis by (simp add: a_def)
qed

lemma fl64_one: "fl64 1 = 1"
  by code_simp

lemma fl64_hundred: "fl64 100 = 100"
  by code_simp

text \<open>
  Two roundings, of the quotient and of the product by 100: a relative error of at most
  \<open>3 / 2^53\<close>.
\<close>

lemma two_roundings:
  fixes a x d u :: rat
  assumes ea: "\<bar>a - x\<bar> \<le> \<bar>x\<bar> * u" and ed: "\<bar>d - a * 100\<bar> \<le> \<bar>a * 100\<bar> * u"
    and u: "0 \<le> u" "u \<le> 1"
  shows "\<bar>d - x * 100\<bar> \<le> \<bar>x * 100\<bar> * (3 * u)"
proof -
  define p where "p = \<bar>x\<bar> * u"
  define pp where "pp = p * u"
  define au where "au = \<bar>a\<bar> * u"
  have p0: "0 \<le> p" using u by (simp add: p_def)
  have pp: "pp \<le> p"
  proof -
    have "p * u \<le> p * 1" using u(2) p0 by (rule mult_left_mono)
    then show ?thesis by (simp add: pp_def)
  qed
  have "\<bar>a\<bar> \<le> \<bar>x\<bar> + p" using ea unfolding p_def by linarith
  then have "\<bar>a\<bar> * u \<le> (\<bar>x\<bar> + p) * u" using u(1) by (rule mult_right_mono)
  then have au: "au \<le> p + pp" by (simp only: au_def pp_def p_def distrib_right)
  have e1: "\<bar>d - a * 100\<bar> \<le> 100 * au"
  proof -
    have "\<bar>a * 100\<bar> * u = 100 * au" by (simp add: au_def abs_mult)
    with ed show ?thesis by simp
  qed
  have e2: "\<bar>a * 100 - x * 100\<bar> \<le> 100 * p"
  proof -
    have "a * 100 - x * 100 = (a - x) * 100" by (simp only: left_diff_distrib)
    then have "\<bar>a * 100 - x * 100\<bar> = \<bar>a - x\<bar> * 100" by (simp only: abs_mult abs_numeral)
    with ea show ?thesis unfolding p_def by linarith
  qed
  have "\<bar>d - x * 100\<bar> \<le> 300 * p" using e1 e2 au pp by linarith
  also have "300 * p = \<bar>x * 100\<bar> * (3 * u)" by (simp add: p_def abs_mult)
  finally show ?thesis .
qed

lemma double_percent_error:
  "\<bar>double_percent q tot - of_int q * 100 / of_int tot\<bar>
     \<le> \<bar>of_int q * 100 / of_int tot\<bar> * (3 / 2 ^ 53)"
proof -
  define x :: rat where "x = of_int q / of_int tot"
  define a where "a = fl64 x"
  define u :: rat where "u = 1 / 2 ^ 53"
  have u: "0 \<le> u" "u \<le> 1" by (simp_all add: u_def)
  have ea: "\<bar>a - x\<bar> \<le> \<bar>x\<bar> * u" using fl64_error [of x] by (simp only: a_def u_def times_divide_eq_right mult_1_right)
  have ed: "\<bar>fl64 (a * 100) - a * 100\<bar> \<le> \<bar>a * 100\<bar> * u"
    using fl64_error [of "a * 100"] by (simp only: u_def times_divide_eq_right mult_1_right)
  have dp: "double_percent q tot = fl64 (a * 100)" by (simp only: double_percent_def a_def x_def)
  have xx: "of_int q * 100 / of_int tot = x * 100" by (simp only: x_def times_divide_eq_left)
  have uu: "3 / 2 ^ 53 = 3 * u" by (simp only: u_def times_divide_eq_right mult_1_right)
  show ?thesis unfolding dp xx uu by (rule two_roundings [OF ea ed u])
qed

section \<open>Percent and cumulative percent of the aggregates\<close>

lemma round_dec_error: "\<bar>round_dec d x - x\<bar> \<le> 1 / (2 * 10 ^ d)"
proof -
  have pos: "(0::rat) < 10 ^ d" by simp
  have fl: "\<And>y::rat. \<bar>of_int \<lfloor>y + 1 / 2\<rfloor> - y\<bar> \<le> 1 / 2"
  proof -
    fix y :: rat
    have "of_int \<lfloor>y + 1 / 2\<rfloor> \<le> y + 1 / 2" by (rule of_int_floor_le)
    moreover have "y + 1 / 2 < of_int \<lfloor>y + 1 / 2\<rfloor> + 1" by linarith
    ultimately show "\<bar>of_int \<lfloor>y + 1 / 2\<rfloor> - y\<bar> \<le> 1 / 2" by linarith
  qed
  have scale: "\<And>(n::rat) y. \<bar>n - y\<bar> \<le> 1 / 2 \<Longrightarrow> \<bar>n / 10 ^ d - y / 10 ^ d\<bar> \<le> 1 / (2 * 10 ^ d)"
  proof -
    fix n y :: rat
    assume a: "\<bar>n - y\<bar> \<le> 1 / 2"
    have "\<bar>n / 10 ^ d - y / 10 ^ d\<bar> = \<bar>n - y\<bar> / 10 ^ d"
      by (simp add: diff_divide_distrib [symmetric])
    also have "\<dots> \<le> (1 / 2) / 10 ^ d" using a pos by (intro divide_right_mono) simp_all
    finally show "\<bar>n / 10 ^ d - y / 10 ^ d\<bar> \<le> 1 / (2 * 10 ^ d)" by simp
  qed
  show ?thesis
  proof (cases "x < 0")
    case True
    have "\<bar>of_int \<lfloor>- x * 10 ^ d + 1 / 2\<rfloor> / 10 ^ d - (- x * 10 ^ d) / 10 ^ d\<bar> \<le> 1 / (2 * 10 ^ d)"
      by (rule scale [OF fl])
    then have "\<bar>of_int \<lfloor>- x * 10 ^ d + 1 / 2\<rfloor> / 10 ^ d + x\<bar> \<le> 1 / (2 * 10 ^ d)" by simp
    then show ?thesis using True by (simp add: round_dec_def abs_minus_commute)
  next
    case False
    have "\<bar>of_int \<lfloor>x * 10 ^ d + 1 / 2\<rfloor> / 10 ^ d - (x * 10 ^ d) / 10 ^ d\<bar> \<le> 1 / (2 * 10 ^ d)"
      by (rule scale [OF fl])
    then show ?thesis using False by (simp add: round_dec_def)
  qed
qed

lemma percent_of_pos: "tot \<noteq> 0 \<Longrightarrow> percent_of d q tot = Num (round_dec d (double_percent q tot))"
  by (simp add: percent_of_def js_div64_def double_percent_def)

lemma round_dec_100: "round_dec 4 100 = 100"
proof -
  have "\<lfloor>(100::rat) * 10 ^ 4 + 1 / 2\<rfloor> = 1000000"
    by (rule floor_unique) simp_all
  then show ?thesis by (simp add: round_dec_def)
qed

text \<open>The quotient of the total by itself is 1 and its product by 100 is 100: no rounding.\<close>

lemma percent_of_full: "tot \<noteq> 0 \<Longrightarrow> percent_of 4 tot tot = Num 100"
  by (simp add: percent_of_def js_div64_def fl64_one fl64_hundred round_dec_100)

lemma foldl_add_sum_list: "foldl (\<lambda>acc x. acc + f x) (a::int) xs = a + sum_list (map f xs)"
  by (induction xs arbitrary: a) simp_all

lemma sum_list_insort_key: "sum_list (map f (insort_key g x xs)) = (f x :: 'b :: comm_monoid_add) + sum_list (map f xs)"
  by (induction xs) (simp_all add: add.left_commute)

lemma sum_list_sort_key: "sum_list (map f (sort_key g xs)) = (sum_list (map f xs) :: 'b :: comm_monoid_add)"
  by (induction xs) (simp_all add: sum_list_insort_key)

lemma foldl_js_add_Num:
  "foldl (\<lambda>acc x. js_add acc (f x)) (Num a) xs = Num (a + sum_list ps)" if "map f xs = map Num ps"
  using that by (induction xs arbitrary: a ps) (auto simp: add.assoc)

lemma percent_sum_Num: "map percent xs = map Num ps \<Longrightarrow> percent_sum xs = Num (sum_list ps)"
  using foldl_js_add_Num [of percent xs ps 0] by (simp add: percent_sum_def)

lemma sum_round_error:
  "\<bar>sum_list (map (\<lambda>q. round_dec d (g q)) qs) - sum_list (map g qs)\<bar> \<le> of_nat (length qs) / (2 * 10 ^ d)"
proof (induction qs)
  case Nil
  then show ?case by simp
next
  case (Cons q qs)
  have "\<bar>round_dec d (g q) + sum_list (map (\<lambda>q. round_dec d (g q)) qs) - (g q + sum_list (map g qs))\<bar>
        \<le> \<bar>round_dec d (g q) - g q\<bar> + \<bar>sum_list (map (\<lambda>q. round_dec d (g q)) qs) - sum_list (map g qs)\<bar>"
    by linarith
  also have "\<dots> \<le> 1 / (2 * 10 ^ d) + of_nat (length qs) / (2 * 10 ^ d)"
    using round_dec_error [of d "g q"] Cons.IH by linarith
  also have "\<dots> = of_nat (length (q # qs)) / (2 * 10 ^ d)"
    by (simp add: add_divide_distrib)
  finally show ?case by simp
qed

lemma sum_list_percent_exact:
  "tot \<noteq> 0 \<Longrightarrow> sum_list (map (\<lambda>q. (of_int q :: rat) * 100 / of_int tot) qs) = of_int (sum_list qs) * 100 / of_int tot"
  by (induction qs) (simp_all add: add_divide_distrib distrib_right)

text \<open>
  The doubles \<^verbatim>\<open>(q / total) * 100\<close> of non-negative quantities sum to the exact share of
  their sum, up to the relative error of two roundings.
\<close>

lemma double_percent_sum:
  assumes "0 < tot" and "\<forall>q \<in> set qs. 0 \<le> q"
  shows "\<bar>sum_list (map (\<lambda>q. double_percent q tot) qs) - of_int (sum_list qs) * 100 / of_int tot\<bar>
           \<le> of_int (sum_list qs) * 100 / of_int tot * (3 / 2 ^ 53)"
  using assms(2)
proof (induction qs)
  case Nil
  then show ?case by simp
next
  case (Cons q qs)
  define c :: rat where "c = 3 / 2 ^ 53"
  define T :: rat where "T = of_int tot"
  have T: "0 < T" using assms(1) by (simp add: T_def)
  from Cons.prems have q: "0 \<le> q" and rest: "\<forall>q \<in> set qs. 0 \<le> q" by simp_all
  have "0 \<le> of_int q * 100 / T" using q T by simp
  then have e1: "\<bar>double_percent q tot - of_int q * 100 / T\<bar> \<le> of_int q * 100 / T * c"
    using double_percent_error [of q tot] by (simp add: c_def T_def)
  have e2: "\<bar>sum_list (map (\<lambda>q. double_percent q tot) qs) - of_int (sum_list qs) * 100 / T\<bar>
           \<le> of_int (sum_list qs) * 100 / T * c"
    using Cons.IH [OF rest] by (simp only: c_def T_def)
  have split: "of_int (sum_list (q # qs)) * 100 / T = of_int q * 100 / T + of_int (sum_list qs) * 100 / T"
    by (simp add: add_divide_distrib distrib_right)
  have "\<bar>sum_list (map (\<lambda>q. double_percent q tot) (q # qs)) - of_int (sum_list (q # qs)) * 100 / T\<bar>
      \<le> of_int q * 100 / T * c + of_int (sum_list qs) * 100 / T * c"
    unfolding split using e1 e2 by simp
  also have "\<dots> = of_int (sum_list (q # qs)) * 100 / T * c"
    unfolding split by (simp only: distrib_right)
  finally show ?case by (simp only: c_def T_def)
qed

text \<open>
  The rounded percentages of non-negative quantities that sum to at most the total: each
  adds a rounding error of up to half a unit of the last decimal, and the doubles that were
  rounded are off by at most \<open>300 / 2^53\<close>, which is below \<open>10^-13\<close>.
\<close>

lemma percents_total:
  assumes tot: "0 < tot" and nonneg: "\<forall>q \<in> set qs. 0 \<le> q" and le: "sum_list qs \<le> tot"
  shows "\<bar>sum_list (map (\<lambda>q. round_dec d (double_percent q tot)) qs)
            - of_int (sum_list qs) * 100 / of_int tot\<bar>
           \<le> of_nat (length qs) / (2 * 10 ^ d) + 1 / 10 ^ 13"
proof -
  define S :: rat where "S = of_int (sum_list qs) * 100 / of_int tot"
  have "0 \<le> sum_list qs" using nonneg by (intro sum_list_nonneg) auto
  then have S0: "0 \<le> S" using tot by (simp add: S_def)
  have "(of_int (sum_list qs) :: rat) \<le> of_int tot" using le by simp
  then have S100: "S \<le> 100" using tot by (simp add: S_def pos_divide_le_eq)
  have "S * (3 / 2 ^ 53) \<le> 100 * (3 / 2 ^ 53)" using S100 by (intro mult_right_mono) simp_all
  also have "\<dots> \<le> (1 / 10 ^ 13 :: rat)" by simp
  finally have slack: "S * (3 / 2 ^ 53) \<le> 1 / 10 ^ 13" .
  have e1: "\<bar>sum_list (map (\<lambda>q. double_percent q tot) qs) - S\<bar> \<le> S * (3 / 2 ^ 53)"
    using double_percent_sum [OF tot nonneg] by (simp only: S_def)
  have e2: "\<bar>sum_list (map (\<lambda>q. round_dec d (double_percent q tot)) qs)
              - sum_list (map (\<lambda>q. double_percent q tot) qs)\<bar> \<le> of_nat (length qs) / (2 * 10 ^ d)"
    by (rule sum_round_error)
  show ?thesis unfolding S_def [symmetric] using e1 e2 slack by linarith
qed

lemma tolerance_per_item:
  "0 < n \<Longrightarrow> of_nat n / (2 * 10 ^ d) + 1 / 10 ^ 13 \<le> (of_nat n :: rat) * (1 / (2 * 10 ^ d) + 1 / 10 ^ 13)"
proof -
  assume "0 < n"
  then have "(1::rat) \<le> of_nat n" by simp
  then have "(1 / 10 ^ 13 :: rat) \<le> of_nat n * (1 / 10 ^ 13)" by simp
  then show ?thesis by (simp add: distrib_left)
qed

lemma partFrequency_from_percent:
  "map percent (partFrequency_from pm tot cum i ps) = map (\<lambda>p. percent_of 4 (pa_quantity p) tot) ps"
  by (induction ps arbitrary: cum i) simp_all

lemma partFrequency_from_length: "length (partFrequency_from pm tot cum i ps) = length ps"
  by (induction ps arbitrary: cum i) simp_all

lemma partFrequency_from_last:
  "ps \<noteq> [] \<Longrightarrow> cumulative_percent (last (partFrequency_from pm tot cum i ps))
     = percent_of 4 (cum + sum_list (map pa_quantity ps)) tot"
proof (induction ps arbitrary: cum i)
  case Nil
  then show ?case by simp
next
  case (Cons p ps)
  show ?case
  proof (cases "ps = []")
    case True
    then show ?thesis by simp
  next
    case False
    then have "partFrequency_from pm tot (cum + pa_quantity p) (i + 1) ps \<noteq> []"
      by (cases ps) simp_all
    with Cons.IH [OF False, of "cum + pa_quantity p" "i + 1"] show ?thesis
      by (simp add: add.assoc)
  qed
qed

lemma totalPartsQuantity_sum:
  "totalPartsQuantity ips = sum_list (map pa_quantity (sortedParts ips))"
  by (simp add: totalPartsQuantity_def foldl_add_sum_list)

lemma colorStats_from_percent:
  "map percent (colorStats_from tot cum i cs) = map (\<lambda>c. percent_of 4 (ca_quantity c) tot) cs"
  by (induction cs arbitrary: cum i) simp_all

lemma colorStats_from_length: "length (colorStats_from tot cum i cs) = length cs"
  by (induction cs arbitrary: cum i) simp_all

lemma colorStats_from_last:
  "cs \<noteq> [] \<Longrightarrow> cumulative_percent (last (colorStats_from tot cum i cs))
     = percent_of 4 (cum + sum_list (map ca_quantity cs)) tot"
proof (induction cs arbitrary: cum i)
  case Nil
  then show ?case by simp
next
  case (Cons c cs)
  show ?case
  proof (cases "cs = []")
    case True
    then show ?thesis by simp
  next
    case False
    then have "colorStats_from tot (cum + ca_quantity c) (i + 1) cs \<noteq> []"
      by (cases cs) simp_all
    with Cons.IH [OF False, of "cum + ca_quantity c" "i + 1"] show ?thesis
      by (simp add: add.assoc)
  qed
qed

lemma totalPieces_sum:
  "totalPieces cm ips = sum_list (map ca_quantity (sortedColors cm ips))"
  by (simp add: totalPieces_def sortedColors_def foldl_add_sum_list sum_list_sort_key)

lemma partAgg_step_nonneg:
  assumes "\<forall>(k, v) \<in> set agg. 0 \<le> pa_quantity v" and "0 \<le> row_quantity ip"
  shows "\<forall>(k, v) \<in> set (partAgg_step ip agg). 0 \<le> pa_quantity v"
proof (cases "map_of agg (ip_part_num ip)")
  case None
  then show ?thesis
    using assms set_update_subset [of "ip_part_num ip" _ agg]
    by (fastforce simp: partAgg_step_def Let_def row_quantity_def)
next
  case (Some ex)
  then have "(ip_part_num ip, ex) \<in> set agg" by (rule map_of_SomeD)
  with assms(1) have "0 \<le> pa_quantity ex" by auto
  then show ?thesis
    using Some assms set_update_subset [of "ip_part_num ip" _ agg]
    by (fastforce simp: partAgg_step_def Let_def row_quantity_def)
qed

lemma sortedParts_nonneg:
  assumes "\<forall>ip \<in> set ips. 0 \<le> row_quantity ip"
  shows "\<forall>p \<in> set (sortedParts ips). 0 \<le> pa_quantity p"
proof -
  have "\<forall>ip \<in> set ips. 0 \<le> row_quantity ip \<Longrightarrow> \<forall>(k, v) \<in> set agg. 0 \<le> pa_quantity v \<Longrightarrow>
        \<forall>(k, v) \<in> set (fold partAgg_step ips agg). 0 \<le> pa_quantity v" for agg
  proof (induction ips arbitrary: agg)
    case Nil
    then show ?case by simp
  next
    case (Cons ip ips)
    from Cons.prems(1) have a: "0 \<le> row_quantity ip" and b: "\<forall>ip \<in> set ips. 0 \<le> row_quantity ip"
      by simp_all
    from Cons.IH [OF b partAgg_step_nonneg [OF Cons.prems(2) a]] show ?case by simp
  qed
  from this [of "[]"] assms have "\<forall>(k, v) \<in> set (partAgg ips). 0 \<le> pa_quantity v"
    by (simp add: partAgg_def)
  then show ?thesis by (fastforce simp: sortedParts_def)
qed

lemma colorAgg_step_nonneg:
  assumes "\<forall>(k, v) \<in> set agg. 0 \<le> ca_quantity v" and "0 \<le> row_quantity ip"
  shows "\<forall>(k, v) \<in> set (colorAgg_step cm ip agg). 0 \<le> ca_quantity v"
proof (cases "cm (ip_color_id ip)")
  case None
  then show ?thesis using assms(1) by (simp add: colorAgg_step_def)
next
  case (Some c)
  let ?key = "c_rgb c @ ''-'' @ c_name c"
  show ?thesis
  proof (cases "map_of agg ?key")
    case None
    then show ?thesis
      using Some assms set_update_subset [of ?key _ agg]
      by (fastforce simp: colorAgg_step_def Let_def row_quantity_def)
  next
    case (Some ex)
    then have "(?key, ex) \<in> set agg" by (rule map_of_SomeD)
    with assms(1) have "0 \<le> ca_quantity ex" by auto
    then show ?thesis
      using \<open>cm (ip_color_id ip) = Some c\<close> Some assms set_update_subset [of ?key _ agg]
      by (fastforce simp: colorAgg_step_def Let_def row_quantity_def)
  qed
qed

lemma colorAgg_nonneg:
  assumes "\<forall>ip \<in> set ips. 0 \<le> row_quantity ip"
  shows "\<forall>(k, v) \<in> set (colorAgg cm ips). 0 \<le> ca_quantity v"
proof -
  have "\<forall>ip \<in> set ips. 0 \<le> row_quantity ip \<Longrightarrow> \<forall>(k, v) \<in> set agg. 0 \<le> ca_quantity v \<Longrightarrow>
        \<forall>(k, v) \<in> set (fold (colorAgg_step cm) ips agg). 0 \<le> ca_quantity v" for agg
  proof (induction ips arbitrary: agg)
    case Nil
    then show ?case by simp
  next
    case (Cons ip ips)
    from Cons.prems(1) have a: "0 \<le> row_quantity ip" and b: "\<forall>ip \<in> set ips. 0 \<le> row_quantity ip"
      by simp_all
    from Cons.IH [OF b colorAgg_step_nonneg [OF Cons.prems(2) a]] show ?case by simp
  qed
  from this [of "[]"] assms show ?thesis by (simp add: colorAgg_def)
qed

lemma sortedColors_nonneg:
  assumes "\<forall>ip \<in> set ips. 0 \<le> row_quantity ip"
  shows "\<forall>c \<in> set (sortedColors cm ips). 0 \<le> ca_quantity c"
  using colorAgg_nonneg [OF assms, of cm] by (fastforce simp: sortedColors_def)

lemma percents_within:
  assumes tot: "0 < tot" and s: "sum_list (map f xs) = tot" and nonneg: "\<forall>x \<in> set xs. 0 \<le> f x"
  shows "\<exists>ps. map (\<lambda>x. percent_of 4 (f x) tot) xs = map Num ps
            \<and> \<bar>sum_list ps - 100\<bar> \<le> of_nat (length xs) * (1 / 20000 + 1 / 10 ^ 13)
            \<and> (length xs \<le> 199 \<longrightarrow> \<bar>sum_list ps - 100\<bar> \<le> 1 / 100)"
proof -
  let ?ps = "map (\<lambda>q. round_dec 4 (double_percent q tot)) (map f xs)"
  have ne: "0 < length xs" using tot s by (cases xs) simp_all
  have eq: "map (\<lambda>x. percent_of 4 (f x) tot) xs = map Num ?ps"
    using tot by (simp add: percent_of_pos comp_def)
  have "(of_int (sum_list (map f xs)) :: rat) * 100 / of_int tot = 100" using tot s by simp
  with percents_total [of tot "map f xs" 4] tot s nonneg
  have b: "\<bar>sum_list ?ps - 100\<bar> \<le> of_nat (length xs) / (2 * 10 ^ 4) + 1 / 10 ^ 13" by simp
  with tolerance_per_item [OF ne, of 4]
  have b1: "\<bar>sum_list ?ps - 100\<bar> \<le> of_nat (length xs) * (1 / 20000 + 1 / 10 ^ 13)" by simp
  have b2: "\<bar>sum_list ?ps - 100\<bar> \<le> 1 / 100" if "length xs \<le> 199"
  proof -
    from that have "(of_nat (length xs) :: rat) \<le> 199" by simp
    then have "(of_nat (length xs) :: rat) / (2 * 10 ^ 4) + 1 / 10 ^ 13 \<le> 199 / (2 * 10 ^ 4) + 1 / 10 ^ 13"
      by (simp add: divide_right_mono)
    also have "\<dots> \<le> (1 / 100 :: rat)" by simp
    finally show ?thesis using b by linarith
  qed
  from eq b1 b2 show ?thesis by blast
qed

text \<open>
  Claim C1, as the code has it. When the grand total is positive the aggregate is not
  empty and the cumulative percent of its last item is exactly 100. When moreover no row
  has a negative quantity, the percent values of the output sum to 100 within
  \<open>n * (0.00005 + 10^-13)\<close> for a list of \<open>n\<close> items: each percent is rounded to 4
  decimals, so each item adds an error of up to 0.00005, and the doubles that are rounded
  carry the error of a division and a multiplication. The sum is within 0.01 of 100 for
  lists of up to 199 items.
\<close>

theorem C1_percent_totals:
  "(0 < totalPieces cm ips \<longrightarrow>
      colorStats cm ips \<noteq> []
    \<and> cumulative_percent (last (colorStats cm ips)) = Num 100
    \<and> ((\<forall>ip \<in> set ips. 0 \<le> row_quantity ip) \<longrightarrow>
          within_tolerance (of_nat (length (colorStats cm ips)) * (1 / 20000 + 1 / 10 ^ 13))
            (percent_sum (colorStats cm ips)) 100
        \<and> (length (colorStats cm ips) \<le> 199 \<longrightarrow>
              within_tolerance (1 / 100) (percent_sum (colorStats cm ips)) 100)))
 \<and> (0 < totalPartsQuantity ips \<longrightarrow>
      partFrequency pm ips \<noteq> []
    \<and> cumulative_percent (last (partFrequency pm ips)) = Num 100
    \<and> ((\<forall>ip \<in> set ips. 0 \<le> row_quantity ip) \<longrightarrow>
          within_tolerance (of_nat (length (partFrequency pm ips)) * (1 / 20000 + 1 / 10 ^ 13))
            (percent_sum (partFrequency pm ips)) 100
        \<and> (length (partFrequency pm ips) \<le> 199 \<longrightarrow>
              within_tolerance (1 / 100) (percent_sum (partFrequency pm ips)) 100)))"
proof (intro conjI impI)
  assume pos: "0 < totalPieces cm ips"
  let ?cs = "sortedColors cm ips" and ?T = "totalPieces cm ips"
  have sum: "sum_list (map ca_quantity ?cs) = ?T" by (simp add: totalPieces_sum)
  with pos have ne: "?cs \<noteq> []" by auto
  then show "colorStats cm ips \<noteq> []"
    using colorStats_from_length [of ?T 0 0 ?cs] by (auto simp: colorStats_def)
  show "cumulative_percent (last (colorStats cm ips)) = Num 100"
    using colorStats_from_last [OF ne, of ?T 0 0] sum pos
    by (simp add: colorStats_def percent_of_full)
  assume nonneg: "\<forall>ip \<in> set ips. 0 \<le> row_quantity ip"
  from percents_within [OF pos sum sortedColors_nonneg [OF nonneg]] obtain ps where
    ps: "map (\<lambda>c. percent_of 4 (ca_quantity c) ?T) ?cs = map Num ps"
        "\<bar>sum_list ps - 100\<bar> \<le> of_nat (length ?cs) * (1 / 20000 + 1 / 10 ^ 13)"
        "length ?cs \<le> 199 \<longrightarrow> \<bar>sum_list ps - 100\<bar> \<le> 1 / 100" by blast
  have sm: "percent_sum (colorStats cm ips) = Num (sum_list ps)"
    by (rule percent_sum_Num) (simp add: colorStats_def colorStats_from_percent ps(1))
  have len: "length (colorStats cm ips) = length ?cs"
    by (simp add: colorStats_def colorStats_from_length)
  show "within_tolerance (of_nat (length (colorStats cm ips)) * (1 / 20000 + 1 / 10 ^ 13))
         (percent_sum (colorStats cm ips)) 100"
    using ps(2) by (simp only: sm len within_tolerance_def jsnum.case)
  assume "length (colorStats cm ips) \<le> 199"
  then show "within_tolerance (1 / 100) (percent_sum (colorStats cm ips)) 100"
    using ps(3) by (simp only: sm len within_tolerance_def jsnum.case)
next
  assume pos: "0 < totalPartsQuantity ips"
  let ?ps = "sortedParts ips" and ?T = "totalPartsQuantity ips"
  have sum: "sum_list (map pa_quantity ?ps) = ?T" by (simp add: totalPartsQuantity_sum)
  with pos have ne: "?ps \<noteq> []" by auto
  then show "partFrequency pm ips \<noteq> []"
    using partFrequency_from_length [of pm ?T 0 0 ?ps] by (auto simp: partFrequency_def)
  show "cumulative_percent (last (partFrequency pm ips)) = Num 100"
    using partFrequency_from_last [OF ne, of pm ?T 0 0] sum pos
    by (simp add: partFrequency_def percent_of_full)
  assume nonneg: "\<forall>ip \<in> set ips. 0 \<le> row_quantity ip"
  from percents_within [OF pos sum sortedParts_nonneg [OF nonneg]] obtain ps where
    ps: "map (\<lambda>c. percent_of 4 (pa_quantity c) ?T) ?ps = map Num ps"
        "\<bar>sum_list ps - 100\<bar> \<le> of_nat (length ?ps) * (1 / 20000 + 1 / 10 ^ 13)"
        "length ?ps \<le> 199 \<longrightarrow> \<bar>sum_list ps - 100\<bar> \<le> 1 / 100" by blast
  have sm: "percent_sum (partFrequency pm ips) = Num (sum_list ps)"
    by (rule percent_sum_Num) (simp add: partFrequency_def partFrequency_from_percent ps(1))
  have len: "length (partFrequency pm ips) = length ?ps"
    by (simp add: partFrequency_def partFrequency_from_length)
  show "within_tolerance (of_nat (length (partFrequency pm ips)) * (1 / 20000 + 1 / 10 ^ 13))
         (percent_sum (partFrequency pm ips)) 100"
    using ps(2) by (simp only: sm len within_tolerance_def jsnum.case)
  assume "length (partFrequency pm ips) \<le> 199"
  then show "within_tolerance (1 / 100) (percent_sum (partFrequency pm ips)) 100"
    using ps(3) by (simp only: sm len within_tolerance_def jsnum.case)
qed

text \<open>
  Two rows of one color each: both lists have two items, no quantity is negative, and the
  sums are within the tolerance of two items, and within 0.01.
\<close>

theorem C1_percent_totals_witness:
  "0 < totalPieces (colorMap scenario_colors) scenario_rows
   \<and> 0 < totalPartsQuantity scenario_rows
   \<and> cumulative_percent (last (colorStats (colorMap scenario_colors) scenario_rows)) = Num 100
   \<and> within_tolerance (2 * (1 / 20000 + 1 / 10 ^ 13))
        (percent_sum (colorStats (colorMap scenario_colors) scenario_rows)) 100
   \<and> within_tolerance (1 / 100)
        (percent_sum (colorStats (colorMap scenario_colors) scenario_rows)) 100
   \<and> cumulative_percent (last (partFrequency (partMap []) scenario_rows)) = Num 100
   \<and> within_tolerance (2 * (1 / 20000 + 1 / 10 ^ 13))
        (percent_sum (partFrequency (partMap []) scenario_rows)) 100
   \<and> within_tolerance (1 / 100)
        (percent_sum (partFrequency (partMap []) scenario_rows)) 100"
proof -
  have a: "0 < totalPieces (colorMap scenario_colors) scenario_rows" by code_simp
  have b: "0 < totalPartsQuantity scenario_rows" by code_simp
  have c: "length (colorStats (colorMap scenario_colors) scenario_rows) = 2" by code_simp
  have d: "length (partFrequency (partMap []) scenario_rows) = 2" by code_simp
  have n: "\<forall>ip \<in> set scenario_rows. 0 \<le> row_quantity ip" by code_simp
  show ?thesis
    using C1_percent_totals [of "colorMap scenario_colors" scenario_rows "partMap []"] a b c d n
    by simp
qed

text \<open>
  The tolerance 0.01 of the claim as stated fails on 222 parts of quantity 1 each: every
  percent is 100/222 rounded up to 0.4505, and the percents sum to 100.011.
\<close>

lemma update_fresh: "k \<notin> fst ` set al \<Longrightarrow> AList.update k v al = al @ [(k, v)]"
  by (induction al) auto

lemma partAgg_step_fresh:
  "ip_part_num ip \<notin> fst ` set agg \<Longrightarrow>
   partAgg_step ip agg = agg @ [(ip_part_num ip,
      \<lparr>pa_part_num = ip_part_num ip, pa_quantity = row_quantity ip, pa_img_url = ip_img_url ip\<rparr>)]"
  by (simp add: partAgg_step_def Let_def map_of_eq_None_iff [THEN iffD2] update_fresh row_quantity_def)

lemma partAgg_fold_fresh:
  "distinct (map fst agg @ map ip_part_num ips) \<Longrightarrow>
   fold partAgg_step ips agg = agg @ map (\<lambda>ip. (ip_part_num ip,
      \<lparr>pa_part_num = ip_part_num ip, pa_quantity = row_quantity ip, pa_img_url = ip_img_url ip\<rparr>)) ips"
proof (induction ips arbitrary: agg)
  case Nil
  then show ?case by simp
next
  case (Cons ip ips)
  from Cons.prems have fresh: "ip_part_num ip \<notin> fst ` set agg" by auto
  have "distinct (map fst (partAgg_step ip agg) @ map ip_part_num ips)"
    using Cons.prems by (auto simp: partAgg_step_fresh [OF fresh])
  from Cons.IH [OF this] show ?case by (simp add: partAgg_step_fresh [OF fresh])
qed

lemma sortedParts_unit_rows:
  assumes "distinct (map ip_part_num ips)" and "\<forall>ip \<in> set ips. row_quantity ip = 1"
  shows "map pa_quantity (sortedParts ips) = replicate (length ips) 1"
proof -
  have agg: "map snd (partAgg ips) = map (\<lambda>ip.
      \<lparr>pa_part_num = ip_part_num ip, pa_quantity = row_quantity ip, pa_img_url = ip_img_url ip\<rparr>) ips"
    using partAgg_fold_fresh [of "[]" ips] assms(1) by (simp add: partAgg_def comp_def)
  have len: "length (sortedParts ips) = length ips"
    using arg_cong [OF agg, of length] by (simp add: sortedParts_def)
  have "\<forall>p \<in> set (sortedParts ips). pa_quantity p = 1"
    using assms(2) by (auto simp: sortedParts_def agg)
  then have "map pa_quantity (sortedParts ips) = replicate (length (sortedParts ips)) 1"
    by (simp add: map_replicate_const [symmetric] cong: map_cong)
  with len show ?thesis by simp
qed

lemma percent_sum_replicate:
  "map percent xs = replicate n (Num r) \<Longrightarrow> percent_sum xs = Num (of_nat n * r)"
proof -
  assume a: "map percent xs = replicate n (Num r)"
  then have "map percent xs = map Num (replicate n r)" by simp
  from percent_sum_Num [OF this] show ?thesis by (simp add: sum_list_replicate)
qed


lemma c1_rows_distinct: "distinct (map ip_part_num c1_rows)"
proof -
  have "inj (\<lambda>i. replicate (Suc i) CHR ''1'')"
    by (rule injI) (metis length_replicate nat.inject)
  then have "distinct (map (\<lambda>i. replicate (Suc i) CHR ''1'') [0..<222])"
    by (simp add: distinct_map inj_on_def)
  then show ?thesis by (simp add: c1_rows_def c1_row_def comp_def)
qed

lemma c1_rows_unit: "\<forall>ip \<in> set c1_rows. row_quantity ip = 1"
proof -
  have "parseInt ''1'' = Some 1" by code_simp
  then show ?thesis by (simp add: c1_rows_def c1_row_def row_quantity_def parseInt_or_zero_def)
qed

lemma c1_percent: "percent_of 4 1 222 = Num (4505 / 10000)"
  by code_simp

theorem C1_percent_sum_counterexample:
  "0 < totalPartsQuantity c1_rows
   \<and> length (partFrequency (partMap []) c1_rows) = 222
   \<and> percent_sum (partFrequency (partMap []) c1_rows) = Num (100011 / 1000)
   \<and> \<not> within_tolerance (1 / 100) (percent_sum (partFrequency (partMap []) c1_rows)) 100"
proof -
  have q: "map pa_quantity (sortedParts c1_rows) = replicate 222 1"
    using sortedParts_unit_rows [OF c1_rows_distinct c1_rows_unit] by (simp add: c1_rows_def)
  have len: "length (sortedParts c1_rows) = 222"
    using arg_cong [OF q, of length] by simp
  have tot: "totalPartsQuantity c1_rows = 222"
    by (simp add: totalPartsQuantity_sum q sum_list_replicate)
  have "map percent (partFrequency (partMap []) c1_rows)
          = map (\<lambda>q. percent_of 4 q 222) (map pa_quantity (sortedParts c1_rows))"
    by (simp add: partFrequency_def partFrequency_from_percent tot comp_def)
  also have "\<dots> = replicate 222 (Num (4505 / 10000))"
    by (simp only: q map_replicate c1_percent)
  finally have "percent_sum (partFrequency (partMap []) c1_rows) = Num (of_nat 222 * (4505 / 10000))"
    by (rule percent_sum_replicate)
  then have s: "percent_sum (partFrequency (partMap []) c1_rows) = Num (100011 / 1000)"
    by simp
  have l: "length (partFrequency (partMap []) c1_rows) = 222"
    by (simp add: partFrequency_def partFrequency_from_length len)
  show ?thesis using tot s l by (simp add: within_tolerance_def)
qed

section \<open>Properties of the year trends\<close>

lemma set_add_nonempty: "set_add x xs \<noteq> []"
  by (auto simp: set_add_def)

lemma yearAgg_step_sets:
  assumes "\<forall>(y, d) \<in> set agg. yd_sets d \<noteq> []"
  shows "\<forall>(y, d) \<in> set (yearAgg_step i2s sm cm ip agg). yd_sets d \<noteq> []"
proof (cases "resolve_year i2s sm ip")
  case None
  then show ?thesis using assms by (simp add: yearAgg_step_def)
next
  case (Some r)
  obtain setNum yr where r: "r = (setNum, yr)" by (cases r)
  show ?thesis
  proof (cases "yr < 1949")
    case True
    then show ?thesis using assms Some r by (simp add: yearAgg_step_def)
  next
    case False
    obtain d' where step: "yearAgg_step i2s sm cm ip agg = AList.update yr d' agg"
      and d': "yd_sets d' \<noteq> []"
      using Some r False
      by (auto simp: yearAgg_step_def Let_def set_add_nonempty split: option.splits)
    show ?thesis
      unfolding step using assms d' set_update_subset [of yr d' agg] by auto
  qed
qed

lemma yearAgg_sets: "\<forall>(y, d) \<in> set (yearAgg i2s sm cm ips). yd_sets d \<noteq> []"
proof -
  have "\<forall>(y, d) \<in> set agg. yd_sets d \<noteq> [] \<Longrightarrow>
        \<forall>(y, d) \<in> set (fold (yearAgg_step i2s sm cm) ips agg). yd_sets d \<noteq> []" for agg
  proof (induction ips arbitrary: agg)
    case Nil
    then show ?case by simp
  next
    case (Cons ip ips)
    from Cons.IH [OF yearAgg_step_sets [OF Cons.prems]] show ?case by simp
  qed
  from this [of "[]"] show ?thesis by (simp add: yearAgg_def)
qed

lemma setsOnlyYearAgg_step_sets:
  assumes "\<forall>(y, d) \<in> set agg. so_sets d \<noteq> []"
  shows "\<forall>(y, d) \<in> set (setsOnlyYearAgg_step Y st agg). so_sets d \<noteq> []"
proof (cases "parseInt (s_year st)")
  case None
  then show ?thesis using assms by (simp add: setsOnlyYearAgg_step_def)
next
  case (Some yr)
  show ?thesis
  proof (cases "yr < 1949 \<or> yr \<in> Y")
    case True
    then show ?thesis using assms Some by (auto simp: setsOnlyYearAgg_step_def)
  next
    case False
    obtain d' where step: "setsOnlyYearAgg_step Y st agg = AList.update yr d' agg"
      and d': "so_sets d' \<noteq> []"
      using Some False
      by (auto simp: setsOnlyYearAgg_step_def Let_def set_add_nonempty split: option.splits)
    show ?thesis
      unfolding step using assms d' set_update_subset [of yr d' agg] by auto
  qed
qed

lemma setsOnlyYearAgg_sets: "\<forall>(y, d) \<in> set (setsOnlyYearAgg Y sets). so_sets d \<noteq> []"
proof -
  have "\<forall>(y, d) \<in> set agg. so_sets d \<noteq> [] \<Longrightarrow>
        \<forall>(y, d) \<in> set (fold (setsOnlyYearAgg_step Y) sets agg). so_sets d \<noteq> []" for agg
  proof (induction sets arbitrary: agg)
    case Nil
    then show ?case by simp
  next
    case (Cons st sets)
    from Cons.IH [OF setsOnlyYearAgg_step_sets [OF Cons.prems]] show ?case by simp
  qed
  from this [of "[]"] show ?thesis by (simp add: setsOnlyYearAgg_def)
qed

lemma avg_defined:
  "0 < n \<Longrightarrow> or_zero (Math_round (js_div p (int n)))
              = Num (of_int \<lfloor>(of_int p :: rat) / of_nat n + 1 / 2\<rfloor>)"
  by (simp add: js_div_def)

lemma yearAgg_step_keys:
  "map fst (yearAgg_step i2s sm cm ip agg) =
     (case resolve_year i2s sm ip of
        None \<Rightarrow> map fst agg
      | Some (setNum, yr) \<Rightarrow>
          (if yr < 1949 \<or> yr \<in> set (map fst agg) then map fst agg else map fst agg @ [yr]))"
  by (auto simp: yearAgg_step_def Let_def AList.update_keys split: option.splits)

lemma yearAgg_fold_keys:
  "distinct (map fst agg) \<Longrightarrow>
   distinct (map fst (fold (yearAgg_step i2s sm cm) ips agg))
   \<and> set (map fst (fold (yearAgg_step i2s sm cm) ips agg))
       = set (map fst agg) \<union> {yr \<in> inventory_source_years i2s sm ips. 1949 \<le> yr}"
proof (induction ips arbitrary: agg)
  case Nil
  then show ?case by (simp add: inventory_source_years_def)
next
  case (Cons ip ips)
  have d: "distinct (map fst (yearAgg_step i2s sm cm ip agg))"
    using Cons.prems by (auto simp: yearAgg_step_keys split: option.splits)
  have k: "set (map fst (yearAgg_step i2s sm cm ip agg))
        = set (map fst agg) \<union> {yr \<in> inventory_source_years i2s sm [ip]. 1949 \<le> yr}"
    by (auto simp: yearAgg_step_keys inventory_source_years_def split: option.splits)
  have u: "inventory_source_years i2s sm (ip # ips)
        = inventory_source_years i2s sm [ip] \<union> inventory_source_years i2s sm ips"
    by (auto simp: inventory_source_years_def)
  from Cons.IH [OF d] k u show ?case by auto
qed

lemma yearAgg_keys:
  "distinct (map fst (yearAgg i2s sm cm ips))"
  "set (map fst (yearAgg i2s sm cm ips)) = {yr \<in> inventory_source_years i2s sm ips. 1949 \<le> yr}"
  using yearAgg_fold_keys [of "[]" i2s sm cm ips] by (simp_all add: yearAgg_def)

lemma setsOnlyYearAgg_step_keys:
  "map fst (setsOnlyYearAgg_step Y st agg) =
     (case parseInt (s_year st) of
        None \<Rightarrow> map fst agg
      | Some yr \<Rightarrow>
          (if yr < 1949 \<or> yr \<in> Y \<or> yr \<in> set (map fst agg) then map fst agg
           else map fst agg @ [yr]))"
  by (auto simp: setsOnlyYearAgg_step_def Let_def AList.update_keys split: option.splits)

lemma setsOnlyYearAgg_fold_keys:
  "distinct (map fst agg) \<Longrightarrow>
   distinct (map fst (fold (setsOnlyYearAgg_step Y) sets agg))
   \<and> set (map fst (fold (setsOnlyYearAgg_step Y) sets agg))
       = set (map fst agg) \<union> {yr \<in> sets_source_years sets. 1949 \<le> yr \<and> yr \<notin> Y}"
proof (induction sets arbitrary: agg)
  case Nil
  then show ?case by (simp add: sets_source_years_def)
next
  case (Cons st sets)
  have d: "distinct (map fst (setsOnlyYearAgg_step Y st agg))"
    using Cons.prems by (auto simp: setsOnlyYearAgg_step_keys split: option.splits)
  have k: "set (map fst (setsOnlyYearAgg_step Y st agg))
        = set (map fst agg) \<union> {yr \<in> sets_source_years [st]. 1949 \<le> yr \<and> yr \<notin> Y}"
    by (auto simp: setsOnlyYearAgg_step_keys sets_source_years_def split: option.splits)
  have u: "sets_source_years (st # sets) = sets_source_years [st] \<union> sets_source_years sets"
    by (auto simp: sets_source_years_def)
  from Cons.IH [OF d] k u show ?case by auto
qed

lemma setsOnlyYearAgg_keys:
  "distinct (map fst (setsOnlyYearAgg Y sets))"
  "set (map fst (setsOnlyYearAgg Y sets)) = {yr \<in> sets_source_years sets. 1949 \<le> yr \<and> yr \<notin> Y}"
  using setsOnlyYearAgg_fold_keys [of "[]" Y sets] by (simp_all add: setsOnlyYearAgg_def)

lemma inventoryYearTrends_years:
  "map year (inventoryYearTrends i2s sm cm pm ips) = map fst (yearAgg i2s sm cm ips)"
  by (simp add: inventoryYearTrends_def inventoryYearTrend_def Let_def comp_def)

lemma setsOnlyYearTrends_years:
  "map year (setsOnlyYearTrends i2s sm cm pm sets ips)
     = map fst (setsOnlyYearAgg (set (map year (inventoryYearTrends i2s sm cm pm ips))) sets)"
  by (simp add: setsOnlyYearTrends_def setsOnlyYearTrend_def Let_def comp_def)

text \<open>
  Claim C4. The years of the inventory-joined group and of the sets-only group are
  pairwise different (so a year is in exactly one group, and once), together they are
  exactly the years from 1949 on that a row resolves to or that a set row carries, every
  sets-only trend has empty detail fields and the tag \<open>sets_only\<close>, every
  inventory trend has the tag \<open>inventory\<close>, and the emitted list consists of the two
  groups.
\<close>

theorem C4_year_trend_split:
  "distinct (map year (inventoryYearTrends i2s sm cm pm ips
                       @ setsOnlyYearTrends i2s sm cm pm sets ips))
 \<and> set (map year (inventoryYearTrends i2s sm cm pm ips))
     \<union> set (map year (setsOnlyYearTrends i2s sm cm pm sets ips))
     = {yr \<in> inventory_source_years i2s sm ips \<union> sets_source_years sets. 1949 \<le> yr}
 \<and> (\<forall>t \<in> set (setsOnlyYearTrends i2s sm cm pm sets ips).
       unique_colors t = None \<and> unique_parts t = None \<and> top_color t = None
     \<and> top_color_hex t = None \<and> top_part t = None \<and> top_part_name t = None
     \<and> data_source t = sets_only)
 \<and> (\<forall>t \<in> set (inventoryYearTrends i2s sm cm pm ips). data_source t = inventory)
 \<and> set (yearTrends i2s sm cm pm sets ips)
     = set (inventoryYearTrends i2s sm cm pm ips)
       \<union> set (setsOnlyYearTrends i2s sm cm pm sets ips)
 \<and> length (yearTrends i2s sm cm pm sets ips)
     = length (inventoryYearTrends i2s sm cm pm ips)
       + length (setsOnlyYearTrends i2s sm cm pm sets ips)"
proof -
  let ?inv = "inventoryYearTrends i2s sm cm pm ips"
  let ?so = "setsOnlyYearTrends i2s sm cm pm sets ips"
  let ?Y = "set (map year ?inv)"
  have iy: "?Y = {yr \<in> inventory_source_years i2s sm ips. 1949 \<le> yr}"
    by (simp only: inventoryYearTrends_years yearAgg_keys)
  have sy: "set (map year ?so) = {yr \<in> sets_source_years sets. 1949 \<le> yr \<and> yr \<notin> ?Y}"
    by (simp only: setsOnlyYearTrends_years setsOnlyYearAgg_keys)
  have di: "distinct (map year ?inv)"
    by (simp only: inventoryYearTrends_years yearAgg_keys)
  have ds: "distinct (map year ?so)"
    by (simp only: setsOnlyYearTrends_years setsOnlyYearAgg_keys)
  have disj: "set (map year ?inv) \<inter> set (map year ?so) = {}"
    unfolding sy by auto
  have 1: "distinct (map year (?inv @ ?so))"
    using di ds disj by simp
  have 2: "set (map year ?inv) \<union> set (map year ?so)
      = {yr \<in> inventory_source_years i2s sm ips \<union> sets_source_years sets. 1949 \<le> yr}"
    unfolding sy unfolding iy by auto
  have 3: "\<forall>t \<in> set ?so.
       unique_colors t = None \<and> unique_parts t = None \<and> top_color t = None
     \<and> top_color_hex t = None \<and> top_part t = None \<and> top_part_name t = None
     \<and> data_source t = sets_only"
    by (auto simp: setsOnlyYearTrends_def setsOnlyYearTrend_def Let_def)
  have 4: "\<forall>t \<in> set ?inv. data_source t = inventory"
    by (auto simp: inventoryYearTrends_def inventoryYearTrend_def Let_def)
  have 5: "set (yearTrends i2s sm cm pm sets ips) = set ?inv \<union> set ?so"
    by (simp add: yearTrends_def)
  have 6: "length (yearTrends i2s sm cm pm sets ips) = length ?inv + length ?so"
    by (simp add: yearTrends_def)
  from 1 2 3 4 5 6 show ?thesis by blast
qed

theorem C4_year_trend_split_witness:
  "map year yt_inventoryYearTrends = [2015]
   \<and> map year yt_setsOnlyYearTrends = [2005]
   \<and> map data_source yt_yearTrends = [inventory, sets_only]
   \<and> distinct (map year (yt_inventoryYearTrends @ yt_setsOnlyYearTrends))
   \<and> unique_colors (hd yt_setsOnlyYearTrends) = None
   \<and> top_part_name (hd yt_setsOnlyYearTrends) = None
   \<and> data_source (hd yt_inventoryYearTrends) = inventory"
proof -
  have a: "map year yt_inventoryYearTrends = [2015]" by code_simp
  have b: "map year yt_setsOnlyYearTrends = [2005]" by code_simp
  have c: "map data_source yt_yearTrends = [inventory, sets_only]" by code_simp
  from a have "yt_inventoryYearTrends \<noteq> []" by auto
  then have i: "hd yt_inventoryYearTrends \<in> set yt_inventoryYearTrends" by simp
  from b have "yt_setsOnlyYearTrends \<noteq> []" by auto
  then have s: "hd yt_setsOnlyYearTrends \<in> set yt_setsOnlyYearTrends" by simp
  note inst = C4_year_trend_split [of "inventoryToSetMap yt_inventories" "setMap yt_sets"
      "colorMap scenario_colors" "partMap []" yt_rows yt_sets,
      folded yt_inventoryYearTrends_def yt_setsOnlyYearTrends_def yt_yearTrends_def]
  from inst have d: "distinct (map year (yt_inventoryYearTrends @ yt_setsOnlyYearTrends))"
    by blast
  from inst s have e: "unique_colors (hd yt_setsOnlyYearTrends) = None
      \<and> top_part_name (hd yt_setsOnlyYearTrends) = None" by blast
  from inst i have f: "data_source (hd yt_inventoryYearTrends) = inventory" by blast
  from a b c d e f show ?thesis by blast
qed

text \<open>
  Claim C10. Every emitted year trend, of either path, counts at least one set, so the
  division for the average has a non-zero denominator and the average is the rounded
  quotient: the fallback to 0 for an undefined quotient is never taken.
\<close>

theorem C10_total_sets_positive:
  "\<forall>t \<in> set (yearTrends i2s sm cm pm sets ips).
      1 \<le> total_sets t
    \<and> avg_pieces_per_set t
        = Num (of_int \<lfloor>(of_int (total_pieces t) :: rat) / of_nat (total_sets t) + 1 / 2\<rfloor>)"
proof
  fix t
  assume "t \<in> set (yearTrends i2s sm cm pm sets ips)"
  then consider
      (inv) "t \<in> set (inventoryYearTrends i2s sm cm pm ips)"
    | (so) "t \<in> set (setsOnlyYearTrends i2s sm cm pm sets ips)"
    by (auto simp: yearTrends_def)
  then show "1 \<le> total_sets t
    \<and> avg_pieces_per_set t
        = Num (of_int \<lfloor>(of_int (total_pieces t) :: rat) / of_nat (total_sets t) + 1 / 2\<rfloor>)"
  proof cases
    case inv
    then obtain y d where yd: "(y, d) \<in> set (yearAgg i2s sm cm ips)"
      and t: "t = inventoryYearTrend cm pm (y, d)"
      by (auto simp: inventoryYearTrends_def)
    from yearAgg_sets yd have pos: "0 < length (yd_sets d)" by fastforce
    then have "1 \<le> length (yd_sets d)" by (simp add: Suc_le_eq)
    then show ?thesis
      using avg_defined [OF pos, of "yd_pieces d"]
      by (simp add: t inventoryYearTrend_def Let_def)
  next
    case so
    then obtain y d where yd: "(y, d) \<in> set (setsOnlyYearAgg
        (set (map year (inventoryYearTrends i2s sm cm pm ips))) sets)"
      and t: "t = setsOnlyYearTrend (y, d)"
      by (auto simp: setsOnlyYearTrends_def Let_def)
    from setsOnlyYearAgg_sets yd have pos: "0 < length (so_sets d)" by fastforce
    then have "1 \<le> length (so_sets d)" by (simp add: Suc_le_eq)
    then show ?thesis
      using avg_defined [OF pos, of "so_totalPieces d"]
      by (simp add: t setsOnlyYearTrend_def Let_def)
  qed
qed

theorem C10_total_sets_positive_witness:
  "yt_yearTrends \<noteq> []
   \<and> 1 \<le> total_sets (hd yt_yearTrends)
   \<and> total_pieces (hd yt_yearTrends) = 8
   \<and> avg_pieces_per_set (hd yt_yearTrends) = Num 8
   \<and> 1 \<le> total_sets (last yt_yearTrends)
   \<and> avg_pieces_per_set (last yt_yearTrends) = Num 20"
proof -
  have ne: "yt_yearTrends \<noteq> []" by code_simp
  then have h: "hd yt_yearTrends \<in> set yt_yearTrends" and l: "last yt_yearTrends \<in> set yt_yearTrends"
    by simp_all
  note inst = C10_total_sets_positive [of "inventoryToSetMap yt_inventories" "setMap yt_sets"
      "colorMap scenario_colors" "partMap []" yt_sets yt_rows, folded yt_yearTrends_def]
  have p1: "total_pieces (hd yt_yearTrends) = 8" by code_simp
  have p2: "total_sets (hd yt_yearTrends) = 1" by code_simp
  have p3: "total_pieces (last yt_yearTrends) = 20" by code_simp
  have p4: "total_sets (last yt_yearTrends) = 1" by code_simp
  note p = p1 p2 p3 p4
  from inst h have "1 \<le> total_sets (hd yt_yearTrends) \<and> avg_pieces_per_set (hd yt_yearTrends)
     = Num (of_int \<lfloor>(of_int (total_pieces (hd yt_yearTrends)) :: rat)
                      / of_nat (total_sets (hd yt_yearTrends)) + 1 / 2\<rfloor>)" by blast
  moreover from inst l have "1 \<le> total_sets (last yt_yearTrends) \<and> avg_pieces_per_set (last yt_yearTrends)
     = Num (of_int \<lfloor>(of_int (total_pieces (last yt_yearTrends)) :: rat)
                      / of_nat (total_sets (last yt_yearTrends)) + 1 / 2\<rfloor>)" by blast
  moreover have "\<lfloor>(17 / 2 :: rat)\<rfloor> = 8" by (rule floor_unique) simp_all
  moreover have "\<lfloor>(41 / 2 :: rat)\<rfloor> = 20" by (rule floor_unique) simp_all
  ultimately show ?thesis using ne p by simp
qed

section \<open>A grand total of zero\<close>

lemma periodColorStats_from_zero:
  "tot \<le> 0 \<Longrightarrow>
   \<forall>e \<in> set (periodColorStats_from tot cum i cs). percent e = Num 0 \<and> cumulative_percent e = Num 0"
  by (induction cs arbitrary: cum i) (simp_all add: guarded_percent_def)

lemma periodPartFrequency_from_zero:
  "tot \<le> 0 \<Longrightarrow>
   \<forall>e \<in> set (periodPartFrequency_from pm tot cum i ps).
     percent e = Num 0 \<and> cumulative_percent e = Num 0"
  by (induction ps arbitrary: cum i) (simp_all add: guarded_percent_def)

text \<open>
  In the period re-aggregation a total of zero gives percent and cumulative percent 0 for
  every item, as the spec says.
\<close>

lemma period_zero_total:
  "periodColorsTotal i2s sm cm minYear ips = 0 \<Longrightarrow>
     \<forall>e \<in> set (periodColorStats i2s sm cm minYear ips).
       percent e = Num 0 \<and> cumulative_percent e = Num 0"
  "periodPartsTotal i2s sm minYear ips = 0 \<Longrightarrow>
     \<forall>e \<in> set (periodPartFrequency i2s sm pm minYear ips).
       percent e = Num 0 \<and> cumulative_percent e = Num 0"
  using periodColorStats_from_zero [of 0 0 0 "periodColors i2s sm cm minYear ips"]
        periodPartFrequency_from_zero [of 0 pm 0 0 "periodParts i2s sm minYear ips"]
  by (simp_all add: periodColorStats_def periodPartFrequency_def)

text \<open>
  Claim C5 fails on the all-time aggregates. They divide by the grand total without the
  guard the period path has: one row of quantity 0 gives a color list and a part list of
  one item each whose percent and cumulative percent are \<^verbatim>\<open>NaN\<close> (\<^verbatim>\<open>0 / 0\<close>), which
  \<^verbatim>\<open>JSON.stringify\<close> writes as \<^verbatim>\<open>null\<close>. The period path gives 0 on the same row.
\<close>

theorem C5_zero_total_nan:
  "totalPieces (colorMap scenario_colors) c5_rows = 0
   \<and> map percent (colorStats (colorMap scenario_colors) c5_rows) = [NaN]
   \<and> map cumulative_percent (colorStats (colorMap scenario_colors) c5_rows) = [NaN]
   \<and> totalPartsQuantity c5_rows = 0
   \<and> map percent (partFrequency (partMap []) c5_rows) = [NaN]
   \<and> map cumulative_percent (partFrequency (partMap []) c5_rows) = [NaN]
   \<and> map percent (periodColorStats (inventoryToSetMap yt_inventories) (setMap yt_sets)
          (colorMap scenario_colors) 2010 c5_rows) = [Num 0]
   \<and> map cumulative_percent (periodColorStats (inventoryToSetMap yt_inventories) (setMap yt_sets)
          (colorMap scenario_colors) 2010 c5_rows) = [Num 0]"
proof -
  have a: "totalPieces (colorMap scenario_colors) c5_rows = 0" by code_simp
  have b: "map percent (colorStats (colorMap scenario_colors) c5_rows) = [NaN]" by code_simp
  have c: "map cumulative_percent (colorStats (colorMap scenario_colors) c5_rows) = [NaN]"
    by code_simp
  have d: "totalPartsQuantity c5_rows = 0" by code_simp
  have e: "map percent (partFrequency (partMap []) c5_rows) = [NaN]" by code_simp
  have f: "map cumulative_percent (partFrequency (partMap []) c5_rows) = [NaN]" by code_simp
  have g: "map percent (periodColorStats (inventoryToSetMap yt_inventories) (setMap yt_sets)
          (colorMap scenario_colors) 2010 c5_rows) = [Num 0]" by code_simp
  have h: "map cumulative_percent (periodColorStats (inventoryToSetMap yt_inventories)
          (setMap yt_sets) (colorMap scenario_colors) 2010 c5_rows) = [Num 0]" by code_simp
  from a b c d e f g h show ?thesis by simp
qed

section \<open>Properties of the decade colors\<close>

lemma decades_shape:
  "d \<in> set decades \<Longrightarrow> d_endYear d = d_startYear d + 9 \<and> d_startYear d mod 10 = 0"
  unfolding decades_def by (elim set_ConsD [elim_format] disjE) simp_all

lemma decades_start_inj:
  "d \<in> set decades \<Longrightarrow> d' \<in> set decades \<Longrightarrow> d_startYear d = d_startYear d' \<Longrightarrow> d = d'"
  unfolding decades_def by (elim set_ConsD [elim_format] disjE) simp_all

lemma decades_label_inj:
  "d \<in> set decades \<Longrightarrow> d' \<in> set decades \<Longrightarrow> d_decade d = d_decade d' \<Longrightarrow> d = d'"
  unfolding decades_def by (elim set_ConsD [elim_format] disjE) simp_all

lemma find_Some_mem: "find P xs = Some d \<Longrightarrow> d \<in> set xs \<and> P d"
  by (induction xs) (simp_all split: if_splits)

lemma find_unique:
  assumes "d \<in> set xs" and "P d" and "\<forall>x \<in> set xs. P x \<longrightarrow> x = d"
  shows "find P xs = Some d"
proof (cases "find P xs")
  case None
  with assms(1,2) show ?thesis by (simp add: find_None_iff)
next
  case (Some y)
  from find_Some_mem [OF Some] assms(3) have "y = d" by blast
  with Some show ?thesis by simp
qed

lemma decade_range_unique:
  assumes x: "x \<in> set decades" and d: "d \<in> set decades"
    and px: "d_startYear x \<le> yr \<and> yr \<le> d_endYear x"
    and pd: "d_startYear d \<le> yr \<and> yr \<le> d_endYear d"
  shows "x = d"
proof -
  from decades_shape [OF x] decades_shape [OF d]
  have ex: "d_endYear x = d_startYear x + 9" and ed: "d_endYear d = d_startYear d + 9"
    and "10 dvd d_startYear x" and "10 dvd d_startYear d"
    by (simp_all add: dvd_eq_mod_eq_0)
  then have "10 dvd (d_startYear x - d_startYear d)" by (intro dvd_diff) simp_all
  then obtain k where k: "d_startYear x - d_startYear d = 10 * k" by (auto simp: dvd_def)
  from px pd ex ed k have "-9 \<le> 10 * k" and "10 * k \<le> 9" by linarith+
  then have "k = 0" by linarith
  with k have "d_startYear x = d_startYear d" by simp
  then show ?thesis by (rule decades_start_inj [OF x d])
qed

lemma decade_find_label:
  assumes d: "d \<in> set decades"
  shows "(map_option d_decade (find (\<lambda>d. d_startYear d \<le> yr \<and> yr \<le> d_endYear d) decades)
      = Some (d_decade d))
   = (d_startYear d \<le> yr \<and> yr \<le> d_endYear d)"
proof
  assume "map_option d_decade (find (\<lambda>d. d_startYear d \<le> yr \<and> yr \<le> d_endYear d) decades)
      = Some (d_decade d)"
  then obtain d' where f: "find (\<lambda>d. d_startYear d \<le> yr \<and> yr \<le> d_endYear d) decades = Some d'"
    and l: "d_decade d' = d_decade d" by auto
  from find_Some_mem [OF f] have m: "d' \<in> set decades" and p: "d_startYear d' \<le> yr \<and> yr \<le> d_endYear d'"
    by simp_all
  from decades_label_inj [OF m d l] p show "d_startYear d \<le> yr \<and> yr \<le> d_endYear d" by simp
next
  assume p: "d_startYear d \<le> yr \<and> yr \<le> d_endYear d"
  have "\<forall>x \<in> set decades. d_startYear x \<le> yr \<and> yr \<le> d_endYear x \<longrightarrow> x = d"
  proof (intro ballI impI)
    fix x assume x: "x \<in> set decades" and px: "d_startYear x \<le> yr \<and> yr \<le> d_endYear x"
    show "x = d" by (rule decade_range_unique [OF x d px p])
  qed
  from find_unique [of d decades "\<lambda>d. d_startYear d \<le> yr \<and> yr \<le> d_endYear d", OF d p this]
  show "map_option d_decade (find (\<lambda>d. d_startYear d \<le> yr \<and> yr \<le> d_endYear d) decades)
      = Some (d_decade d)" by simp
qed

lemma decade_label_iff:
  assumes "d \<in> set decades"
  shows "(decade_label i2s sm ip = Some (d_decade d))
       = (case resolve_year i2s sm ip of
            None \<Rightarrow> False
          | Some (setNum, yr) \<Rightarrow> d_startYear d \<le> yr \<and> yr \<le> d_endYear d)"
proof (cases "resolve_year i2s sm ip")
  case None
  then show ?thesis by (simp add: decade_label_def)
next
  case (Some r)
  obtain setNum yr where r: "r = (setNum, yr)" by (cases r)
  show ?thesis
    using decade_find_label [OF assms, of yr] by (simp add: decade_label_def Some r)
qed

lemma decade_rows_label:
  "d \<in> set decades \<Longrightarrow>
   filter (\<lambda>ip. decade_label i2s sm ip = Some (d_decade d)) ips = decade_rows i2s sm d ips"
  by (simp add: decade_rows_def decade_label_iff)

lemma decade_label_in:
  assumes "decade_label i2s sm ip = Some L"
  shows "L \<in> d_decade ` set decades"
proof -
  from assms obtain setNum yr d' where
    "find (\<lambda>d. d_startYear d \<le> yr \<and> yr \<le> d_endYear d) decades = Some d'" "L = d_decade d'"
    by (auto simp: decade_label_def split: option.splits)
  with find_Some_mem [of "\<lambda>d. d_startYear d \<le> yr \<and> yr \<le> d_endYear d" decades d']
  show ?thesis by simp
qed

lemma decadeColorAgg_step_eq:
  "decadeColorAgg_step i2s sm cm ip agg =
     (case decade_label i2s sm ip of
        None \<Rightarrow> agg
      | Some L \<Rightarrow>
          (case map_of agg L of
             None \<Rightarrow> agg
           | Some m \<Rightarrow> AList.update L (colorAgg_step cm ip m) agg))"
proof (cases "resolve_year i2s sm ip")
  case None
  then show ?thesis by (simp add: decadeColorAgg_step_def decade_label_def)
next
  case (Some r)
  obtain setNum yr where r: "r = (setNum, yr)" by (cases r)
  show ?thesis
  proof (cases "find (\<lambda>d. d_startYear d \<le> yr \<and> yr \<le> d_endYear d) decades")
    case None
    then show ?thesis using Some r by (simp add: decadeColorAgg_step_def decade_label_def)
  next
    case (Some d')
    note fd = this
    have lab: "decade_label i2s sm ip = Some (d_decade d')"
      using \<open>resolve_year i2s sm ip = Some r\<close> r fd by (simp add: decade_label_def)
    show ?thesis
    proof (cases "map_of agg (d_decade d')")
      case None
      then show ?thesis
        using \<open>resolve_year i2s sm ip = Some r\<close> r fd lab
        by (simp add: decadeColorAgg_step_def Let_def split: option.splits)
    next
      case (Some m)
      show ?thesis
      proof (cases "cm (ip_color_id ip)")
        case None
        then show ?thesis
          using \<open>resolve_year i2s sm ip = Some r\<close> r fd lab Some
          by (simp add: decadeColorAgg_step_def colorAgg_step_def AList.update_triv)
      next
        case (Some c)
        then show ?thesis
          using \<open>resolve_year i2s sm ip = Some r\<close> r fd lab \<open>map_of agg (d_decade d') = Some m\<close>
          by (simp add: decadeColorAgg_step_def colorAgg_step_def Let_def)
      qed
    qed
  qed
qed

lemma decadeColorAgg_step_keys: "map fst (decadeColorAgg_step i2s sm cm ip agg) = map fst agg"
proof -
  have "map_of agg L = Some m \<Longrightarrow> map fst (AList.update L v agg) = map fst agg" for L m v
    by (auto simp: AList.update_keys dest: map_of_SomeD intro: rev_image_eqI)
  then show ?thesis
    by (simp add: decadeColorAgg_step_eq split: option.splits)
qed

lemma map_of_const_entries: "k \<in> f ` set xs \<Longrightarrow> map_of (map (\<lambda>d. (f d, c)) xs) k = Some c"
  by (induction xs) auto

lemma decadeColorAgg_fold:
  assumes k0: "map fst agg0 = map d_decade decades"
    and l0: "\<And>L. L \<in> d_decade ` set decades \<Longrightarrow> map_of agg0 L = Some []"
  shows "map fst (fold (decadeColorAgg_step i2s sm cm) ips agg0) = map d_decade decades
   \<and> (\<forall>L. L \<in> d_decade ` set decades \<longrightarrow>
        map_of (fold (decadeColorAgg_step i2s sm cm) ips agg0) L
          = Some (colorAgg cm (filter (\<lambda>ip. decade_label i2s sm ip = Some L) ips)))"
proof (induction ips rule: rev_induct)
  case Nil
  then show ?case using k0 l0 by (simp add: colorAgg_def)
next
  case (snoc x xs)
  let ?agg = "fold (decadeColorAgg_step i2s sm cm) xs agg0"
  from snoc.IH have
    keys: "map fst ?agg = map d_decade decades" and
    look: "\<And>L. L \<in> d_decade ` set decades \<Longrightarrow>
        map_of ?agg L = Some (colorAgg cm (filter (\<lambda>ip. decade_label i2s sm ip = Some L) xs))"
    by blast+
  have k': "map fst (fold (decadeColorAgg_step i2s sm cm) (xs @ [x]) agg0) = map d_decade decades"
    using keys by (simp add: decadeColorAgg_step_keys)
  have "map_of (decadeColorAgg_step i2s sm cm x ?agg) L
          = Some (colorAgg cm (filter (\<lambda>ip. decade_label i2s sm ip = Some L) (xs @ [x])))"
    if L: "L \<in> d_decade ` set decades" for L
  proof (cases "decade_label i2s sm x")
    case None
    then show ?thesis using look [OF L] by (simp add: decadeColorAgg_step_eq)
  next
    case (Some L0)
    have m0: "map_of ?agg L0 = Some (colorAgg cm (filter (\<lambda>ip. decade_label i2s sm ip = Some L0) xs))"
      by (rule look [OF decade_label_in [OF Some]])
    show ?thesis
    proof (cases "L = L0")
      case True
      then show ?thesis using Some m0
        by (simp add: decadeColorAgg_step_eq AList.update_conv' colorAgg_def)
    next
      case False
      then show ?thesis using Some m0 look [OF L]
        by (simp add: decadeColorAgg_step_eq AList.update_conv')
    qed
  qed
  with k' show ?case by simp
qed

lemma decadeColorAgg_lookup:
  assumes "d \<in> set decades"
  shows "map_of (decadeColorAgg i2s sm cm ips) (d_decade d)
           = Some (colorAgg cm (decade_rows i2s sm d ips))"
proof -
  have k0: "map fst (map (\<lambda>d. (d_decade d, [] :: (string \<times> ColorAgg) list)) decades) = map d_decade decades"
    by (simp add: comp_def)
  have "map_of (fold (decadeColorAgg_step i2s sm cm) ips (map (\<lambda>d. (d_decade d, [])) decades)) (d_decade d)
      = Some (colorAgg cm (filter (\<lambda>ip. decade_label i2s sm ip = Some (d_decade d)) ips))"
    using decadeColorAgg_fold [OF k0 map_of_const_entries, of i2s sm cm ips] assms by blast
  then show ?thesis
    by (simp add: decadeColorAgg_def decade_rows_label [OF assms])
qed

lemma decadeColors_entry_eq:
  assumes "d \<in> set decades"
  shows "decadeColors_entry (decadeColorAgg i2s sm cm ips) d =
     (if decade_total i2s sm cm ips d = 0 then \<lparr>dcs_decade = d_decade d, dcs_colors = []\<rparr>
      else decade_entry i2s sm cm ips d)"
  by (simp add: decadeColors_entry_def decadeColorAgg_lookup [OF assms] Let_def decade_total_def
      totalPieces_def decade_entry_def sortedColors_def)

lemma decade_entry_length:
  "length (dcs_colors (decade_entry i2s sm cm ips d))
     = min (length (colorAgg cm (decade_rows i2s sm d ips))) 10"
  by (simp add: decade_entry_def sortedColors_def)

lemma decade_entry_nonempty:
  assumes "decade_total i2s sm cm ips d \<noteq> 0"
  shows "dcs_colors (decade_entry i2s sm cm ips d) \<noteq> []"
proof -
  have "sum_list (map ca_quantity (sortedColors cm (decade_rows i2s sm d ips))) \<noteq> 0"
    using assms by (simp add: decade_total_def totalPieces_sum)
  then have "sortedColors cm (decade_rows i2s sm d ips) \<noteq> []" by auto
  then show ?thesis by (simp add: decade_entry_def)
qed

lemma decadeColors_filter:
  "set ds \<subseteq> set decades \<Longrightarrow>
   filter (\<lambda>e. dcs_colors e \<noteq> []) (map (decadeColors_entry (decadeColorAgg i2s sm cm ips)) ds)
     = map (decade_entry i2s sm cm ips) (filter (\<lambda>d. decade_total i2s sm cm ips d \<noteq> 0) ds)"
proof (induction ds)
  case Nil
  then show ?case by simp
next
  case (Cons d ds)
  then have d: "d \<in> set decades" and ds: "set ds \<subseteq> set decades" by simp_all
  show ?case
    using Cons.IH [OF ds] decade_entry_nonempty [of i2s sm cm ips d]
    by (simp add: decadeColors_entry_eq [OF d])
qed

lemma decadeColors_eq:
  "decadeColors i2s sm cm ips
     = map (decade_entry i2s sm cm ips) (filter (\<lambda>d. decade_total i2s sm cm ips d \<noteq> 0) decades)"
  by (simp add: decadeColors_def decadeColors_filter)

lemma sum_list_take_le:
  assumes "\<forall>x \<in> set xs. (0::int) \<le> f x"
  shows "0 \<le> sum_list (map f (take n xs)) \<and> sum_list (map f (take n xs)) \<le> sum_list (map f xs)"
proof -
  have "sum_list (map f xs) = sum_list (map f (take n xs)) + sum_list (map f (drop n xs))"
    by (metis append_take_drop_id map_append sum_list_append)
  moreover have "0 \<le> sum_list (map f (drop n xs))"
    using assms by (intro sum_list_nonneg) (auto dest: in_set_dropD)
  moreover have "0 \<le> sum_list (map f (take n xs))"
    using assms by (intro sum_list_nonneg) (auto dest: in_set_takeD)
  ultimately show ?thesis by linarith
qed

lemma colorAgg_step_keys:
  "map fst (colorAgg_step cm ip agg) =
     (case cm (ip_color_id ip) of
        None \<Rightarrow> map fst agg
      | Some c \<Rightarrow>
          (if c_rgb c @ ''-'' @ c_name c \<in> set (map fst agg) then map fst agg
           else map fst agg @ [c_rgb c @ ''-'' @ c_name c]))"
  by (simp add: colorAgg_step_def Let_def AList.update_keys split: option.splits)

lemma colorAgg_fold_keys:
  "distinct (map fst agg) \<Longrightarrow>
   distinct (map fst (fold (colorAgg_step cm) ips agg))
   \<and> set (map fst (fold (colorAgg_step cm) ips agg)) = set (map fst agg) \<union> color_keys cm ips"
proof (induction ips arbitrary: agg)
  case Nil
  then show ?case by (simp add: color_keys_def)
next
  case (Cons ip ips)
  have d: "distinct (map fst (colorAgg_step cm ip agg))"
    using Cons.prems by (simp add: colorAgg_step_keys split: option.splits)
  have k: "set (map fst (colorAgg_step cm ip agg)) = set (map fst agg) \<union> color_keys cm [ip]"
    by (auto simp: colorAgg_step_keys color_keys_def split: option.splits)
  have u: "color_keys cm (ip # ips) = color_keys cm [ip] \<union> color_keys cm ips"
    by (auto simp: color_keys_def)
  from Cons.IH [OF d] k u show ?case by auto
qed

lemma colorAgg_length: "length (colorAgg cm ips) = card (color_keys cm ips)"
proof -
  from colorAgg_fold_keys [of "[]" cm ips]
  have "distinct (map fst (colorAgg cm ips))" "set (map fst (colorAgg cm ips)) = color_keys cm ips"
    by (simp_all add: colorAgg_def)
  then show ?thesis by (metis distinct_card length_map)
qed

lemma dc_percent_sum_Num:
  "map dc_percent (dcs_colors e) = map Num ps \<Longrightarrow> dc_percent_sum e = Num (sum_list ps)"
  using foldl_js_add_Num [of dc_percent "dcs_colors e" ps 0] by (simp add: dc_percent_sum_def)

lemma decade_entry_percent_sum:
  assumes nonneg: "\<forall>ip \<in> set ips. 0 \<le> row_quantity ip"
    and tot: "decade_total i2s sm cm ips d \<noteq> 0"
  shows "\<exists>s. dc_percent_sum (decade_entry i2s sm cm ips d) = Num s
       \<and> s \<le> 100 + of_nat (length (dcs_colors (decade_entry i2s sm cm ips d))) * (1 / 200 + 1 / 10 ^ 13)
       \<and> (card (color_keys cm (decade_rows i2s sm d ips)) \<le> 10 \<longrightarrow>
            \<bar>s - 100\<bar> \<le> of_nat (length (dcs_colors (decade_entry i2s sm cm ips d)))
                               * (1 / 200 + 1 / 10 ^ 13))"
proof -
  let ?R = "decade_rows i2s sm d ips"
  let ?T = "decade_total i2s sm cm ips d"
  let ?top = "take 10 (sortedColors cm ?R)"
  let ?qs = "map ca_quantity ?top"
  let ?ps = "map (\<lambda>q. round_dec 2 (double_percent q ?T)) ?qs"
  let ?k = "length (dcs_colors (decade_entry i2s sm cm ips d))"
  have R: "\<forall>ip \<in> set ?R. 0 \<le> row_quantity ip" using nonneg by (simp add: decade_rows_def)
  have all: "sum_list (map ca_quantity (sortedColors cm ?R)) = ?T"
    by (simp add: decade_total_def totalPieces_sum)
  from sum_list_take_le [OF sortedColors_nonneg [OF R, of cm], of 10]
  have lo: "0 \<le> sum_list ?qs" and hi: "sum_list ?qs \<le> ?T" using all by simp_all
  from lo hi tot have Tpos: "0 < ?T" by linarith
  have qs0: "\<forall>q \<in> set ?qs. 0 \<le> q"
    using sortedColors_nonneg [OF R, of cm] by (auto dest: in_set_takeD)
  have k: "?k = length ?qs" by (simp add: decade_entry_def)
  have "dcs_colors (decade_entry i2s sm cm ips d) \<noteq> []" by (rule decade_entry_nonempty [OF tot])
  then have kpos: "0 < ?k" by simp
  have "map dc_percent (dcs_colors (decade_entry i2s sm cm ips d)) = map Num ?ps"
    using tot by (simp add: decade_entry_def percent_of_pos comp_def)
  then have s: "dc_percent_sum (decade_entry i2s sm cm ips d) = Num (sum_list ?ps)"
    by (rule dc_percent_sum_Num)
  have "\<bar>sum_list ?ps - of_int (sum_list ?qs) * 100 / of_int ?T\<bar> \<le> of_nat ?k / (2 * 10 ^ 2) + 1 / 10 ^ 13"
    using percents_total [OF Tpos qs0 hi, of 2] by (simp only: k)
  with tolerance_per_item [OF kpos, of 2]
  have err: "\<bar>sum_list ?ps - of_int (sum_list ?qs) * 100 / of_int ?T\<bar> \<le> of_nat ?k * (1 / 200 + 1 / 10 ^ 13)"
    by simp
  have "(of_int (sum_list ?qs) :: rat) \<le> of_int ?T" using hi by simp
  then have "(of_int (sum_list ?qs) :: rat) * 100 / of_int ?T \<le> 100"
    using Tpos by (simp add: pos_divide_le_eq)
  with err have up: "sum_list ?ps \<le> 100 + of_nat ?k * (1 / 200 + 1 / 10 ^ 13)" by linarith
  have full: "\<bar>sum_list ?ps - 100\<bar> \<le> of_nat ?k * (1 / 200 + 1 / 10 ^ 13)"
    if "card (color_keys cm ?R) \<le> 10"
  proof -
    from that have "length (sortedColors cm ?R) \<le> 10"
      by (simp add: sortedColors_def colorAgg_length)
    then have "?top = sortedColors cm ?R" by simp
    then have "sum_list ?qs = ?T" using all by simp
    then have "(of_int (sum_list ?qs) :: rat) * 100 / of_int ?T = 100" using tot by simp
    with err show ?thesis by simp
  qed
  from s up full show ?thesis by blast
qed

text \<open>
  Claim C9, as the code has it. The output lists, in the order of the decade table,
  exactly the decades whose total matched quantity is not 0, and the entry of a decade is
  \<open>decade_entry\<close>: the first 10 colors, by descending quantity, of the color aggregate of
  the decade's rows, each with its share of the decade's total rounded to 2 decimals. So
  every emitted decade lists between 1 and 10 colors. When no row has a negative quantity,
  the listed percents sum to at most \<open>100 + k * (0.005 + 10^-13)\<close> for \<open>k\<close> listed colors,
  and to within \<open>k * (0.005 + 10^-13)\<close> of 100 when the decade has at most 10 distinct
  colors: the rounding of each percent can move the sum to either side of 100.
\<close>

theorem C9_decade_colors:
  "decadeColors i2s sm cm ips
     = map (decade_entry i2s sm cm ips) (filter (\<lambda>d. decade_total i2s sm cm ips d \<noteq> 0) decades)
 \<and> (\<forall>e \<in> set (decadeColors i2s sm cm ips). dcs_colors e \<noteq> [] \<and> length (dcs_colors e) \<le> 10)
 \<and> ((\<forall>ip \<in> set ips. 0 \<le> row_quantity ip) \<longrightarrow>
      (\<forall>d \<in> set decades. decade_total i2s sm cm ips d \<noteq> 0 \<longrightarrow>
         (\<exists>s. dc_percent_sum (decade_entry i2s sm cm ips d) = Num s
            \<and> s \<le> 100 + of_nat (length (dcs_colors (decade_entry i2s sm cm ips d)))
                           * (1 / 200 + 1 / 10 ^ 13)
            \<and> (card (color_keys cm (decade_rows i2s sm d ips)) \<le> 10 \<longrightarrow>
                 \<bar>s - 100\<bar> \<le> of_nat (length (dcs_colors (decade_entry i2s sm cm ips d)))
                                    * (1 / 200 + 1 / 10 ^ 13)))))"
proof (intro conjI ballI impI)
  show "decadeColors i2s sm cm ips
     = map (decade_entry i2s sm cm ips) (filter (\<lambda>d. decade_total i2s sm cm ips d \<noteq> 0) decades)"
    by (rule decadeColors_eq)
next
  fix e assume "e \<in> set (decadeColors i2s sm cm ips)"
  then obtain d where e: "e = decade_entry i2s sm cm ips d" and t: "decade_total i2s sm cm ips d \<noteq> 0"
    by (auto simp: decadeColors_eq)
  show "dcs_colors e \<noteq> []" unfolding e by (rule decade_entry_nonempty [OF t])
  show "length (dcs_colors e) \<le> 10" unfolding e by (simp add: decade_entry_length)
next
  fix d
  assume "\<forall>ip \<in> set ips. 0 \<le> row_quantity ip" and "decade_total i2s sm cm ips d \<noteq> 0"
  then show "\<exists>s. dc_percent_sum (decade_entry i2s sm cm ips d) = Num s
            \<and> s \<le> 100 + of_nat (length (dcs_colors (decade_entry i2s sm cm ips d)))
                           * (1 / 200 + 1 / 10 ^ 13)
            \<and> (card (color_keys cm (decade_rows i2s sm d ips)) \<le> 10 \<longrightarrow>
                 \<bar>s - 100\<bar> \<le> of_nat (length (dcs_colors (decade_entry i2s sm cm ips d)))
                                    * (1 / 200 + 1 / 10 ^ 13))"
    by (rule decade_entry_percent_sum)
qed

lemma c9_decadeColors_value: "c9_decadeColors = [c9_expected]"
  by code_simp

lemma c9_decade_entry_value:
  "decade_entry (inventoryToSetMap yt_inventories) (setMap yt_sets) (colorMap c9_colors)
     c9_rows decade_2010s = c9_expected"
  by code_simp

lemma c9_expected_sum: "dc_percent_sum c9_expected = Num (5001 / 50)"
  by (simp add: c9_expected_def dc_percent_sum_def)

theorem C9_decade_colors_witness:
  "c9_decadeColors \<noteq> []
   \<and> length (dcs_colors (hd c9_decadeColors)) \<le> 10
   \<and> decade_2010s \<in> set decades
   \<and> dc_percent_sum (decade_entry (inventoryToSetMap yt_inventories) (setMap yt_sets)
        (colorMap c9_colors) c9_rows decade_2010s) = Num (5001 / 50)
   \<and> (5001 / 50 :: rat) \<le> 100 + 6 * (1 / 200 + 1 / 10 ^ 13)
   \<and> \<bar>(5001 / 50 :: rat) - 100\<bar> \<le> 6 * (1 / 200 + 1 / 10 ^ 13)"
proof -
  let ?i2s = "inventoryToSetMap yt_inventories" and ?sm = "setMap yt_sets"
  let ?cm = "colorMap c9_colors"
  note inst = C9_decade_colors [of ?i2s ?sm ?cm c9_rows, folded c9_decadeColors_def]
  have ne: "c9_decadeColors \<noteq> []" by (simp add: c9_decadeColors_value)
  then have h: "hd c9_decadeColors \<in> set c9_decadeColors" by simp
  from inst h have l: "length (dcs_colors (hd c9_decadeColors)) \<le> 10" by blast
  have n: "\<forall>ip \<in> set c9_rows. 0 \<le> row_quantity ip" by code_simp
  have m: "decade_2010s \<in> set decades" by code_simp
  have z: "decade_total ?i2s ?sm ?cm c9_rows decade_2010s \<noteq> 0" by code_simp
  have k: "card (color_keys ?cm (decade_rows ?i2s ?sm decade_2010s c9_rows)) \<le> 10"
  proof -
    have "length (colorAgg ?cm (decade_rows ?i2s ?sm decade_2010s c9_rows)) = 6" by code_simp
    then show ?thesis by (simp add: colorAgg_length)
  qed
  from inst n m z k obtain s' where
    s': "dc_percent_sum (decade_entry ?i2s ?sm ?cm c9_rows decade_2010s) = Num s'"
        "s' \<le> 100 + of_nat (length (dcs_colors (decade_entry ?i2s ?sm ?cm c9_rows decade_2010s)))
                         * (1 / 200 + 1 / 10 ^ 13)"
        "\<bar>s' - 100\<bar> \<le> of_nat (length (dcs_colors (decade_entry ?i2s ?sm ?cm c9_rows decade_2010s)))
                         * (1 / 200 + 1 / 10 ^ 13)"
    by blast
  have len: "length (dcs_colors c9_expected) = 6" by (simp add: c9_expected_def)
  from s' have "s' = 5001 / 50" by (simp add: c9_decade_entry_value c9_expected_sum)
  with s' len have b: "(5001 / 50 :: rat) \<le> 100 + 6 * (1 / 200 + 1 / 10 ^ 13)"
      "\<bar>(5001 / 50 :: rat) - 100\<bar> \<le> 6 * (1 / 200 + 1 / 10 ^ 13)"
    by (simp_all add: c9_decade_entry_value)
  have s: "dc_percent_sum (decade_entry ?i2s ?sm ?cm c9_rows decade_2010s) = Num (5001 / 50)"
    by (simp add: c9_decade_entry_value c9_expected_sum)
  from ne l m s b show ?thesis by blast
qed

text \<open>
  The claim as stated (the percents sum to at most 100) fails on six colors of one piece
  each in the 2010s: every percent is 16.67 and the sum is 100.02.
\<close>

theorem C9_percent_sum_counterexample:
  "map dcs_decade c9_decadeColors = [''2010s'']
   \<and> length (dcs_colors (hd c9_decadeColors)) = 6
   \<and> dc_percent_sum (hd c9_decadeColors) = Num (5001 / 50)
   \<and> \<not> (5001 / 50 :: rat) \<le> 100"
  by (simp add: c9_decadeColors_value c9_expected_sum) (simp add: c9_expected_def)

section \<open>Properties of the curve sampler\<close>

lemma sample_index_bound:
  assumes "data \<noteq> []"
  shows "nat (min (max 1 r - 1) (int (length data) - 1)) < length data"
proof -
  from assms have "0 < length data" by simp
  then show ?thesis by linarith
qed

lemma sample_step_inv:
  assumes inv: "sample_inv data n st" and ne: "data \<noteq> []"
  shows "sample_inv data (Suc n) (sample_step lr data maxPoints i st)"
proof -
  define p where "p = data ! nat (min (max 1 (lr maxPoints (length data) i) - 1) (int (length data) - 1))"
  have mem: "p \<in> set data"
    unfolding p_def by (rule nth_mem [OF sample_index_bound [OF ne]])
  obtain sampled seen where st: "st = (sampled, seen)" by (cases st)
  from inv st have sub: "set sampled \<subseteq> set data" and seen: "seen = cp_rank ` set sampled"
    and ds: "distinct (map cp_rank sampled)" and len: "length sampled \<le> n"
    by (simp_all add: sample_inv_def)
  have step: "sample_step lr data maxPoints i st =
      (if cp_rank p \<notin> seen then (sampled @ [p], insert (cp_rank p) seen) else (sampled, seen))"
    by (simp add: sample_step_def Let_def st p_def)
  show ?thesis
  proof (cases "cp_rank p \<in> seen")
    case True
    then show ?thesis using sub seen ds len by (simp add: step sample_inv_def)
  next
    case False
    then have "cp_rank p \<notin> cp_rank ` set sampled" by (simp add: seen)
    then show ?thesis using False sub seen ds len mem
      by (simp add: step sample_inv_def)
  qed
qed

lemma sample_fold_inv:
  assumes "data \<noteq> []"
  shows "sample_inv data n st \<Longrightarrow>
         sample_inv data (n + length js) (fold (sample_step lr data maxPoints) js st)"
proof (induction js arbitrary: n st)
  case Nil
  then show ?case by simp
next
  case (Cons j js)
  from Cons.IH [OF sample_step_inv [OF Cons.prems assms]] show ?case by simp
qed

lemma sample_loop_inv:
  assumes "data \<noteq> []"
  shows "sample_inv data maxPoints (fold (sample_step lr data maxPoints) [0..<maxPoints] ([], {}))"
proof -
  have "sample_inv data 0 ([], {})" by (simp add: sample_inv_def)
  from sample_fold_inv [OF assms this, of "[0..<maxPoints]" lr maxPoints] show ?thesis by simp
qed

lemma rank_inj:
  "distinct (map cp_rank data) \<Longrightarrow> x \<in> set data \<Longrightarrow> y \<in> set data \<Longrightarrow> cp_rank x = cp_rank y \<Longrightarrow> x = y"
  by (auto simp: distinct_map dest: inj_onD)

text \<open>
  Claim C3. A sequence of at most \<open>maxPoints\<close> points is returned unchanged. A longer
  rank-ordered sequence (pairwise different ranks), sampled with \<open>maxPoints \<ge> 1\<close>, gives
  an output that contains the first and the last point, has no rank twice, has at most
  \<open>maxPoints + 2\<close> points, is sorted ascending by rank and consists of input points. This
  holds whatever ranks the floating-point expression selects. The sampler is a closure of
  the script and every call uses the default \<open>maxPoints = 500\<close>.
\<close>

theorem C3_sampleCurvePoints:
  "(length data \<le> maxPoints \<longrightarrow> sampleCurvePoints lr data maxPoints = data)
 \<and> (maxPoints < length data \<and> 1 \<le> maxPoints \<and> distinct (map cp_rank data) \<longrightarrow>
      hd data \<in> set (sampleCurvePoints lr data maxPoints)
    \<and> last data \<in> set (sampleCurvePoints lr data maxPoints)
    \<and> distinct (map cp_rank (sampleCurvePoints lr data maxPoints))
    \<and> length (sampleCurvePoints lr data maxPoints) \<le> maxPoints + 2
    \<and> sorted (map cp_rank (sampleCurvePoints lr data maxPoints))
    \<and> set (sampleCurvePoints lr data maxPoints) \<subseteq> set data)"
proof (intro conjI impI)
  assume "length data \<le> maxPoints"
  then show "sampleCurvePoints lr data maxPoints = data" by (simp add: sampleCurvePoints_def)
next
  assume a: "maxPoints < length data \<and> 1 \<le> maxPoints \<and> distinct (map cp_rank data)"
  then have big: "\<not> length data \<le> maxPoints" and two: "2 \<le> length data"
    and dist: "distinct (map cp_rank data)" by simp_all
  from two have ne: "data \<noteq> []" by (cases data) simp_all
  define st where "st = fold (sample_step lr data maxPoints) [0..<maxPoints] ([], {})"
  define sampled where "sampled = fst st"
  define seen where "seen = snd st"
  define first where "first = data ! 0"
  define final where "final = data ! (length data - 1)"
  define s1 where "s1 = (if cp_rank first \<notin> seen then first # sampled else sampled)"
  define s2 where "s2 = (if cp_rank final \<notin> seen then s1 @ [final] else s1)"
  have out: "sampleCurvePoints lr data maxPoints = sort_key cp_rank s2"
    using big by (simp add: sampleCurvePoints_def Let_def st_def sampled_def seen_def first_def
        final_def s1_def s2_def)
  from sample_loop_inv [OF ne, of maxPoints lr] have
    sub: "set sampled \<subseteq> set data" and seen: "seen = cp_rank ` set sampled"
    and ds: "distinct (map cp_rank sampled)" and len: "length sampled \<le> maxPoints"
    by (simp_all add: sample_inv_def st_def sampled_def seen_def)
  have fm: "first \<in> set data" and lm: "final \<in> set data"
    using ne by (simp_all add: first_def final_def)
  have hd: "hd data = first" and la: "last data = final"
    using ne by (simp_all add: first_def final_def hd_conv_nth last_conv_nth)
  have diff: "cp_rank first \<noteq> cp_rank final"
  proof
    assume "cp_rank first = cp_rank final"
    then have "map cp_rank data ! 0 = map cp_rank data ! (length data - 1)"
      using ne by (simp add: first_def final_def)
    moreover have "0 < length (map cp_rank data)" "length data - 1 < length (map cp_rank data)"
      using ne by simp_all
    ultimately have "0 = length data - 1"
      using nth_eq_iff_index_eq [OF dist, of 0 "length data - 1"] by simp
    with two show False by simp
  qed
  have f_in: "first \<in> set s2"
  proof (cases "cp_rank first \<in> seen")
    case True
    then obtain x where "x \<in> set sampled" "cp_rank x = cp_rank first" by (auto simp: seen)
    with rank_inj [OF dist _ fm] sub have "first \<in> set sampled" by blast
    then show ?thesis by (simp add: s1_def s2_def)
  next
    case False
    then show ?thesis by (simp add: s1_def s2_def)
  qed
  have l_in: "final \<in> set s2"
  proof (cases "cp_rank final \<in> seen")
    case True
    then obtain x where "x \<in> set sampled" "cp_rank x = cp_rank final" by (auto simp: seen)
    with rank_inj [OF dist _ lm] sub have "final \<in> set sampled" by blast
    then show ?thesis using True by (simp add: s1_def s2_def)
  next
    case False
    then show ?thesis by (simp add: s2_def)
  qed
  have d1: "distinct (map cp_rank s1)" using ds by (auto simp: s1_def seen)
  have r1: "cp_rank ` set s1 \<subseteq> insert (cp_rank first) seen" by (auto simp: s1_def seen)
  have d2: "distinct (map cp_rank s2)"
    using d1 r1 diff by (auto simp: s2_def)
  have l2: "length s2 \<le> maxPoints + 2" using len by (simp add: s1_def s2_def)
  have sub2: "set s2 \<subseteq> set data" using sub fm lm by (auto simp: s1_def s2_def)
  show "hd data \<in> set (sampleCurvePoints lr data maxPoints)" using f_in by (simp add: out hd)
  show "last data \<in> set (sampleCurvePoints lr data maxPoints)" using l_in by (simp add: out la)
  show "distinct (map cp_rank (sampleCurvePoints lr data maxPoints))"
    using d2 by (simp add: out distinct_map_sort_key)
  show "length (sampleCurvePoints lr data maxPoints) \<le> maxPoints + 2" using l2 by (simp add: out)
  show "sorted (map cp_rank (sampleCurvePoints lr data maxPoints))" by (simp add: out)
  show "set (sampleCurvePoints lr data maxPoints) \<subseteq> set data" using sub2 by (simp add: out)
qed

theorem C3_sampleCurvePoints_witness:
  "sampleCurvePoints c3_log_rank c3_data 4 = c3_data
   \<and> 2 < length c3_data \<and> distinct (map cp_rank c3_data)
   \<and> map cp_rank (sampleCurvePoints c3_log_rank c3_data 2) = [1, 2, 4]
   \<and> hd c3_data \<in> set (sampleCurvePoints c3_log_rank c3_data 2)
   \<and> last c3_data \<in> set (sampleCurvePoints c3_log_rank c3_data 2)
   \<and> distinct (map cp_rank (sampleCurvePoints c3_log_rank c3_data 2))
   \<and> length (sampleCurvePoints c3_log_rank c3_data 2) \<le> 4
   \<and> sorted (map cp_rank (sampleCurvePoints c3_log_rank c3_data 2))"
proof -
  have l4: "length c3_data \<le> 4" and l2: "2 < length c3_data"
    by (simp_all add: c3_data_def)
  have d: "distinct (map cp_rank c3_data)" by (simp add: c3_data_def c3_point_def)
  have v: "map cp_rank (sampleCurvePoints c3_log_rank c3_data 2) = [1, 2, 4]" by code_simp
  from C3_sampleCurvePoints [of c3_data 4 c3_log_rank] l4
  have a: "sampleCurvePoints c3_log_rank c3_data 4 = c3_data" by blast
  from C3_sampleCurvePoints [of c3_data 2 c3_log_rank] l2 d
  have b: "hd c3_data \<in> set (sampleCurvePoints c3_log_rank c3_data 2)
    \<and> last c3_data \<in> set (sampleCurvePoints c3_log_rank c3_data 2)
    \<and> distinct (map cp_rank (sampleCurvePoints c3_log_rank c3_data 2))
    \<and> length (sampleCurvePoints c3_log_rank c3_data 2) \<le> 2 + 2
    \<and> sorted (map cp_rank (sampleCurvePoints c3_log_rank c3_data 2))"
    by simp
  from a b l2 d v show ?thesis by simp
qed

section \<open>Custom year ranges: aggregated per-year curves against a rescan\<close>



































end
